theory Spec2Isabelle
  imports Complex_Main "HOL-Library.Product_Lexorder" "HOL-Library.List_Lexorder" "HOL-Library.Char_ord"
begin

section \<open>Data model\<close>

text \<open>
  The module \<^verbatim>\<open>econtools/util/frametools.py\<close> works on pandas data frames. A cell holds a
  number, a string or the missing value; numbers are exact rationals here (rounding of
  binary floating point is outside this development).
\<close>

datatype val = Num rat | Str string | NaN

text \<open>
  A data frame is column oriented, as in pandas: an ordered association of column names
  to columns, and the row labels. \<open>wf_frame\<close> is the invariant every pandas frame built
  through the public interface has: every column is as long as the index. Column names are
  distinct in a table of the specification (each row maps a column name to a value).
\<close>

record frame =
  columns :: "(string \<times> val list) list"
  index :: "val list"

definition names :: "frame \<Rightarrow> string list" where
  "names df = map fst (columns df)"

definition nrows :: "frame \<Rightarrow> nat" where
  "nrows df = length (index df)"

definition ncols :: "frame \<Rightarrow> nat" where
  "ncols df = length (columns df)"

definition wf_frame :: "frame \<Rightarrow> bool" where
  "wf_frame df \<longleftrightarrow> distinct (names df) \<and> list_all (\<lambda>(c, vs). length vs = nrows df) (columns df)"

text \<open>The exceptions the module and the library calls it makes can raise.\<close>

datatype error = KeyError | ValueError | AssertionError | TypeError | MergeError | IndexError

text \<open>What \<^verbatim>\<open>print\<close> writes: a line of text, or a series of fractions by provenance value.\<close>

datatype printed = Line string | Dist "(val \<times> rat) list"

text \<open>\<^verbatim>\<open>range(n)\<close> as row labels (a fresh \<^verbatim>\<open>RangeIndex\<close>).\<close>

definition range_index :: "nat \<Rightarrow> val list" where
  "range_index n = map (\<lambda>i. Num (of_nat i)) [0..<n]"

text \<open>Row \<open>i\<close> of a frame: the cells of every column at position \<open>i\<close>, by column name.\<close>

definition row_at :: "frame \<Rightarrow> nat \<Rightarrow> (string \<times> val) list" where
  "row_at df i = map (\<lambda>(c, vs). (c, vs ! i)) (columns df)"


section \<open>The row-sequence adapter\<close>

text \<open>
  \<^verbatim>\<open>
  def df_to_list(df):
      if type(df) is list:
          return df
      elif type(df) is pd.DataFrame:
          return [b for a, b in df.iterrows()]
      else:
          raise(ValueError)
  \<close>
  The argument is dynamically typed: a list (of anything, here of row objects), a data
  frame, or an object of any other type. \<^verbatim>\<open>iterrows\<close> yields, per row in order, the label
  and the row as a series named by that label.
\<close>

record row_series =
  label :: val
  cells :: "(string \<times> val) list"

datatype pyobj = PyList "row_series list" | PyDataFrame frame | PyOther string

definition iterrows :: "frame \<Rightarrow> (val \<times> row_series) list" where
  "iterrows df = map (\<lambda>i. (index df ! i, \<lparr>label = index df ! i, cells = row_at df i\<rparr>)) [0..<nrows df]"

definition df_to_list :: "pyobj \<Rightarrow> error + row_series list" where
  "df_to_list df =
     (case df of
        PyList xs \<Rightarrow> Inr xs
      | PyDataFrame f \<Rightarrow> Inr (map snd (iterrows f))
      | PyOther _ \<Rightarrow> Inl ValueError)"

section \<open>Frame operations of the library\<close>

text \<open>\<^verbatim>\<open>df[c]\<close> reads a column (\<^verbatim>\<open>KeyError\<close> when \<open>None\<close>).\<close>

definition lookup :: "frame \<Rightarrow> string \<Rightarrow> val list option" where
  "lookup df c = map_of (columns df) c"

text \<open>
  \<^verbatim>\<open>df[c] = series\<close>: an existing column is replaced where it stands, a new one is appended.
  \<^verbatim>\<open>df[c] = scalar\<close> broadcasts the scalar to every row.
\<close>

definition set_col :: "frame \<Rightarrow> string \<Rightarrow> val list \<Rightarrow> frame" where
  "set_col df c vs =
     df\<lparr>columns :=
          (if c \<in> set (names df)
           then map (\<lambda>(k, old). if k = c then (k, vs) else (k, old)) (columns df)
           else columns df @ [(c, vs)])\<rparr>"

definition set_scalar :: "frame \<Rightarrow> string \<Rightarrow> val \<Rightarrow> frame" where
  "set_scalar df c v = set_col df c (replicate (nrows df) v)"

text \<open>\<^verbatim>\<open>del df[c]\<close>.\<close>

definition del_col :: "frame \<Rightarrow> string \<Rightarrow> error + frame" where
  "del_col df c =
     (if c \<in> set (names df)
      then Inr (df\<lparr>columns := filter (\<lambda>(k, vs). k \<noteq> c) (columns df)\<rparr>)
      else Inl KeyError)"

text \<open>\<^verbatim>\<open>df[mask]\<close> with a boolean mask: the rows whose mask entry is true, in order.\<close>

definition pick :: "bool list \<Rightarrow> 'a list \<Rightarrow> 'a list" where
  "pick m xs = map snd (filter fst (zip m xs))"

definition mask_rows :: "frame \<Rightarrow> bool list \<Rightarrow> frame" where
  "mask_rows df m =
     \<lparr>columns = map (\<lambda>(c, vs). (c, pick m vs)) (columns df), index = pick m (index df)\<rparr>"

text \<open>
  The order pandas sorts mixed keys in: numbers, then strings, then the missing value.
\<close>

fun enc :: "val \<Rightarrow> nat \<times> rat \<times> string" where
  "enc (Num q) = (0, q, [])"
| "enc (Str s) = (1, 0, s)"
| "enc NaN = (2, 0, [])"

subsection \<open>\<^verbatim>\<open>pandas.merge(left, right, on=..., how=...)\<close>\<close>

text \<open>
  The keyword arguments \<^verbatim>\<open>stata_merge\<close> forwards. The development covers a join on named key
  columns (\<^verbatim>\<open>on\<close>) with one of the four modes (\<^verbatim>\<open>how\<close>) and the default suffixes; that is
  how \<^verbatim>\<open>group_id\<close> calls it and what the specification's join is.
\<close>

datatype join_how = Inner | Left | Right | Outer

record kwargs =
  on :: "string list"
  how :: join_how

definition key_at :: "frame \<Rightarrow> string list \<Rightarrow> nat \<Rightarrow> val list" where
  "key_at df K i = map (\<lambda>k. the (lookup df k) ! i) K"

definition keys_of :: "frame \<Rightarrow> string list \<Rightarrow> val list list" where
  "keys_of df K = map (key_at df K) [0..<nrows df]"

text \<open>The positions of a key among a list of keys; missing values match each other.\<close>

definition matches :: "val list list \<Rightarrow> val list \<Rightarrow> nat list" where
  "matches ks k = filter (\<lambda>j. ks ! j = k) [0..<length ks]"

text \<open>
  The join indexers: one pair per output row, the position of the left row and of the
  right row it is made of (\<open>None\<close> where that side has no row). Left and inner joins
  follow the left rows, a right join the right rows, an outer join is ordered by key.
\<close>

definition left_pairs :: "bool \<Rightarrow> val list list \<Rightarrow> val list list \<Rightarrow> (nat option \<times> nat option) list" where
  "left_pairs keep lk rk =
     concat (map (\<lambda>i. let ms = matches rk (lk ! i)
                      in if ms = [] then (if keep then [(Some i, None)] else [])
                         else map (\<lambda>j. (Some i, Some j)) ms)
                 [0..<length lk])"

definition right_pairs :: "val list list \<Rightarrow> val list list \<Rightarrow> (nat option \<times> nat option) list" where
  "right_pairs lk rk =
     concat (map (\<lambda>j. let ms = matches lk (rk ! j)
                      in if ms = [] then [(None, Some j)]
                         else map (\<lambda>i. (Some i, Some j)) ms)
                 [0..<length rk])"

definition right_only :: "val list list \<Rightarrow> val list list \<Rightarrow> (nat option \<times> nat option) list" where
  "right_only lk rk = map (\<lambda>j. (None, Some j)) (filter (\<lambda>j. matches lk (rk ! j) = []) [0..<length rk])"

definition pair_key :: "val list list \<Rightarrow> val list list \<Rightarrow> nat option \<times> nat option \<Rightarrow> (nat \<times> rat \<times> string) list" where
  "pair_key lk rk p =
     (case p of
        (Some i, _) \<Rightarrow> map enc (lk ! i)
      | (None, Some j) \<Rightarrow> map enc (rk ! j)
      | (None, None) \<Rightarrow> [])"

definition join_indexers :: "join_how \<Rightarrow> val list list \<Rightarrow> val list list \<Rightarrow> (nat option \<times> nat option) list" where
  "join_indexers h lk rk =
     (case h of
        Inner \<Rightarrow> left_pairs False lk rk
      | Left \<Rightarrow> left_pairs True lk rk
      | Right \<Rightarrow> right_pairs lk rk
      | Outer \<Rightarrow> sort_key (pair_key lk rk) (left_pairs True lk rk @ right_only lk rk))"

definition take_col :: "val list \<Rightarrow> nat option list \<Rightarrow> val list" where
  "take_col vs ix = map (\<lambda>p. case p of None \<Rightarrow> NaN | Some i \<Rightarrow> vs ! i) ix"

text \<open>
  The joined frame: the left columns, then the right columns that are not keys. A key
  column takes the right row's key where there is no left row. A column name that is in
  both frames and is not a key gets the suffix \<^verbatim>\<open>_x\<close> on the left and \<^verbatim>\<open>_y\<close> on the right;
  names that end up duplicated are refused. The result has a fresh range index. A key
  that is not a column of both frames is a \<^verbatim>\<open>KeyError\<close>; pandas also fails on an empty
  list of keys.
\<close>

definition left_part :: "frame \<Rightarrow> frame \<Rightarrow> string list \<Rightarrow> (nat option \<times> nat option) list \<Rightarrow> (string \<times> val list) list" where
  "left_part left right K ix =
     map (\<lambda>(c, vs).
            if c \<in> set K
            then (c, map (\<lambda>p. case p of
                           (Some i, _) \<Rightarrow> vs ! i
                         | (None, Some j) \<Rightarrow> the (lookup right c) ! j
                         | (None, None) \<Rightarrow> NaN) ix)
            else (if c \<in> set (names right) then c @ ''_x'' else c,
                  take_col vs (map fst ix)))
         (columns left)"

definition right_part :: "frame \<Rightarrow> frame \<Rightarrow> string list \<Rightarrow> (nat option \<times> nat option) list \<Rightarrow> (string \<times> val list) list" where
  "right_part left right K ix =
     map (\<lambda>(c, vs).
            (if c \<in> set (names left) then c @ ''_y'' else c,
             take_col vs (map snd ix)))
         (filter (\<lambda>(c, vs). c \<notin> set K) (columns right))"

definition pd_merge :: "frame \<Rightarrow> frame \<Rightarrow> kwargs \<Rightarrow> error + frame" where
  "pd_merge left right kw =
     (let K = on kw in
      if K = [] then Inl IndexError
      else if \<not> (set K \<subseteq> set (names left) \<and> set K \<subseteq> set (names right)) then Inl KeyError
      else
        let ix = join_indexers (how kw) (keys_of left K) (keys_of right K);
            cols = left_part left right K ix @ right_part left right K ix
        in if \<not> distinct (map fst cols) then Inl MergeError
           else Inr \<lparr>columns = cols, index = range_index (length ix)\<rparr>)"

subsection \<open>\<^verbatim>\<open>Series.add(other, fill_value=0)\<close> and \<^verbatim>\<open>groupby(...).size() / n\<close>\<close>

text \<open>
  A missing operand counts as the fill value unless both are missing. Strings concatenate
  with strings and fail against numbers.
\<close>

fun add_fill :: "val \<Rightarrow> val \<Rightarrow> error + val" where
  "add_fill (Num a) (Num b) = Inr (Num (a + b))"
| "add_fill (Num a) NaN = Inr (Num (a + 0))"
| "add_fill NaN (Num b) = Inr (Num (0 + b))"
| "add_fill NaN NaN = Inr NaN"
| "add_fill (Str s) (Str t) = Inr (Str (s @ t))"
| "add_fill _ _ = Inl TypeError"

fun sequence :: "(error + 'a) list \<Rightarrow> error + 'a list" where
  "sequence [] = Inr []"
| "sequence (x # xs) =
     (case x of
        Inl e \<Rightarrow> Inl e
      | Inr v \<Rightarrow> (case sequence xs of Inl e \<Rightarrow> Inl e | Inr vs \<Rightarrow> Inr (v # vs)))"

definition add_series :: "val list \<Rightarrow> val list \<Rightarrow> error + val list" where
  "add_series xs ys = sequence (map (\<lambda>(x, y). add_fill x y) (zip xs ys))"

text \<open>
  The share of the rows per value of a column, by value in sorted order; rows whose
  value is missing belong to no group.
\<close>

definition distribution :: "val list \<Rightarrow> nat \<Rightarrow> (val \<times> rat) list" where
  "distribution prov n =
     map (\<lambda>v. (v, of_nat (count_list prov v) / of_nat n))
         (sort_key enc (remdups (filter (\<lambda>v. v \<noteq> NaN) prov)))"

section \<open>The provenance join\<close>

text \<open>
  \<^verbatim>\<open>
  left_tmp = 'tmpa'
  right_tmp = 'tmpb'
  while left_tmp in left.columns:
      left_tmp += 'a'
  while right_tmp in right.columns:
      right_tmp += 'b'
  \<close>
  Both loops are the same loop on a name, a character and the column names of one frame.
  Each round makes the name longer, and a name longer than every column name is free.
\<close>

function fresh_name :: "string \<Rightarrow> char \<Rightarrow> string list \<Rightarrow> string" where
  "fresh_name nm ch cols = (if nm \<in> set cols then fresh_name (nm @ [ch]) ch cols else nm)"
  by pat_completeness auto
termination
proof (relation "measure (\<lambda>(nm, ch, cols). Suc (Max (insert 0 (length ` set cols))) - length nm)")
  show "wf (measure (\<lambda>(nm, ch, cols). Suc (Max (insert 0 (length ` set cols))) - length nm))"
    by simp
next
  fix nm :: string and ch :: char and cols :: "string list"
  assume "nm \<in> set cols"
  then have "length nm \<le> Max (insert 0 (length ` set cols))"
    by (intro Max_ge) auto
  then show "((nm @ [ch], ch, cols), (nm, ch, cols))
      \<in> measure (\<lambda>(nm, ch, cols). Suc (Max (insert 0 (length ` set cols))) - length nm)"
    by simp
qed

declare fresh_name.simps [simp del]

text \<open>
  Lines 45 to 47: the provenance column is the sum of the two marker columns of the
  joined frame, stored under \<open>gen\<close>; then both marker columns are deleted.
  \<^verbatim>\<open>
  new[gen] = new[left_tmp].add(new[right_tmp], fill_value=0)
  del new[left_tmp], new[right_tmp]
  \<close>
\<close>

definition flag_status :: "frame \<Rightarrow> string \<Rightarrow> string \<Rightarrow> string \<Rightarrow> error + frame" where
  "flag_status new left_tmp right_tmp gen =
     (case lookup new left_tmp of
        None \<Rightarrow> Inl KeyError
      | Some a \<Rightarrow>
          (case lookup new right_tmp of
             None \<Rightarrow> Inl KeyError
           | Some b \<Rightarrow>
               (case add_series a b of
                  Inl e \<Rightarrow> Inl e
                | Inr s \<Rightarrow>
                    (case del_col (set_col new gen s) left_tmp of
                       Inl e \<Rightarrow> Inl e
                     | Inr new1 \<Rightarrow> del_col new1 right_tmp))))"

text \<open>
  Lines 49 to 62. \<^verbatim>\<open>if assertval:\<close> tests truthiness, so \<^verbatim>\<open>None\<close> and \<^verbatim>\<open>0\<close> take the
  \<^verbatim>\<open>else\<close> branch. \<^verbatim>\<open>(new[gen] == assertval).min()\<close> is false when some row differs and
  true otherwise (of no rows it is the missing value, which \<^verbatim>\<open>assert\<close> lets pass). The
  result is what was printed and the frame or the exception.
\<close>

definition truthy :: "int option \<Rightarrow> bool" where
  "truthy assertval = (case assertval of None \<Rightarrow> False | Some n \<Rightarrow> n \<noteq> 0)"

definition check_status :: "frame \<Rightarrow> string \<Rightarrow> int option \<Rightarrow> printed list \<times> (error + frame)" where
  "check_status new gen assertval =
     (if truthy assertval then
        (case lookup new gen of
           None \<Rightarrow> ([], Inl KeyError)
         | Some prov \<Rightarrow>
             if list_all (\<lambda>v. v = Num (of_int (the assertval))) prov
             then ([], del_col new gen)
             else ([Line ''Merge assertion is false!'', Dist (distribution prov (nrows new))],
                   Inl AssertionError))
      else
        (case lookup new gen of
           None \<Rightarrow> ([], Inl KeyError)
         | Some prov \<Rightarrow> ([Dist (distribution prov (nrows new))], Inr new)))"

text \<open>
  The whole function: marker names, the marked copies (lines 39 to 41), the join, the
  provenance column, the check.
\<close>

definition stata_merge :: "frame \<Rightarrow> frame \<Rightarrow> int option \<Rightarrow> string \<Rightarrow> kwargs \<Rightarrow> printed list \<times> (error + frame)" where
  "stata_merge left right assertval gen kw =
     (let left_tmp = fresh_name ''tmpa'' CHR ''a'' (names left);
          right_tmp = fresh_name ''tmpb'' CHR ''b'' (names right);
          copy_left = set_scalar left left_tmp (Num 1);
          copy_right = set_scalar right right_tmp (Num 2)
      in case pd_merge copy_left copy_right kw of
           Inl e \<Rightarrow> ([], Inl e)
         | Inr new \<Rightarrow>
             (case flag_status new left_tmp right_tmp gen of
                Inl e \<Rightarrow> ([], Inl e)
              | Inr flagged \<Rightarrow> check_status flagged gen assertval))"

text \<open>
  For the statements about the join: what an indexer pair says about the two rows it
  joins, the status such a pair stands for, and the value of a marker cell with the
  missing value read as \<open>0\<close>.
\<close>

definition pair_ok :: "val list list \<Rightarrow> val list list \<Rightarrow> nat option \<times> nat option \<Rightarrow> bool" where
  "pair_ok lk rk p =
     (case p of
        (Some i, Some j) \<Rightarrow> i < length lk \<and> j < length rk \<and> lk ! i = rk ! j
      | (Some i, None) \<Rightarrow> i < length lk \<and> lk ! i \<notin> set rk
      | (None, Some j) \<Rightarrow> j < length rk \<and> rk ! j \<notin> set lk
      | (None, None) \<Rightarrow> False)"

definition status_of :: "nat option \<times> nat option \<Rightarrow> val" where
  "status_of p = (case p of (Some i, Some j) \<Rightarrow> Num 3 | (Some i, None) \<Rightarrow> Num 1
                   | (None, Some j) \<Rightarrow> Num 2 | (None, None) \<Rightarrow> NaN)"

definition marker_value :: "val \<Rightarrow> rat" where
  "marker_value v = (case v of Num q \<Rightarrow> q | _ \<Rightarrow> 0)"

section \<open>Group identifiers\<close>

text \<open>\<^verbatim>\<open>df[cols]\<close> with a list of names: those columns in that order.\<close>

definition project :: "frame \<Rightarrow> string list \<Rightarrow> error + frame" where
  "project df cs =
     (if set cs \<subseteq> set (names df)
      then Inr \<lparr>columns = map (\<lambda>c. (c, the (lookup df c))) cs, index = index df\<rparr>
      else Inl KeyError)"

text \<open>\<^verbatim>\<open>drop_duplicates()\<close> keeps the first row of every distinct combination of values.\<close>

definition row_vals :: "frame \<Rightarrow> nat \<Rightarrow> val list" where
  "row_vals df i = map (\<lambda>(c, vs). vs ! i) (columns df)"

definition first_seen :: "'a list \<Rightarrow> bool list" where
  "first_seen xs = map (\<lambda>i. xs ! i \<notin> set (take i xs)) [0..<length xs]"

definition drop_duplicates :: "frame \<Rightarrow> frame" where
  "drop_duplicates df = mask_rows df (first_seen (map (row_vals df) [0..<nrows df]))"

text \<open>
  \<^verbatim>\<open>reset_index(drop=True)\<close> replaces the index by a range; \<^verbatim>\<open>reset_index()\<close> on an index
  named \<open>name\<close> inserts the index as the first column under that name, which fails when a
  column has that name.
\<close>

definition reset_index_drop :: "frame \<Rightarrow> frame" where
  "reset_index_drop df = df\<lparr>index := range_index (nrows df)\<rparr>"

definition reset_index_named :: "frame \<Rightarrow> string \<Rightarrow> error + frame" where
  "reset_index_named df name =
     (if name \<in> set (names df) then Inl ValueError
      else Inr \<lparr>columns = (name, index df) # columns df, index = range_index (nrows df)\<rparr>)"

text \<open>
  \<^verbatim>\<open>
  def group_id(df, cols=None, name='group_id', merge=False):
      if not cols:
          cols = df.columns.tolist()
      if name in df.columns:
          raise ValueError(...)
      unique_df = df[cols].drop_duplicates().reset_index(drop=True)
      unique_df.index.name = name
      unique_df = unique_df.reset_index()
      if merge:
          unique_df = stata_merge(df, unique_df, on=cols, how='left', assertval=3)
          new_i, new_j = unique_df.shape
          old_i, old_j = df.shape
          assert new_i == old_i and new_j == old_j + 1
          unique_df.index = df.index
      return unique_df
  \<close>
\<close>

definition group_id :: "frame \<Rightarrow> string list option \<Rightarrow> string \<Rightarrow> bool \<Rightarrow> printed list \<times> (error + frame)" where
  "group_id df cols name merge =
     (let cols' = (case cols of None \<Rightarrow> names df | Some cs \<Rightarrow> if cs = [] then names df else cs)
      in if name \<in> set (names df) then ([], Inl ValueError)
         else
           (case project df cols' of
              Inl e \<Rightarrow> ([], Inl e)
            | Inr p \<Rightarrow>
                (case reset_index_named (reset_index_drop (drop_duplicates p)) name of
                   Inl e \<Rightarrow> ([], Inl e)
                 | Inr unique_df \<Rightarrow>
                     if merge then
                       (case stata_merge df unique_df (Some 3) ''_m'' \<lparr>on = cols', how = Left\<rparr> of
                          (out, Inl e) \<Rightarrow> (out, Inl e)
                        | (out, Inr merged) \<Rightarrow>
                            if nrows merged = nrows df \<and> ncols merged = ncols df + 1
                            then (out, Inr (merged\<lparr>index := index df\<rparr>))
                            else (out, Inl AssertionError))
                     else ([], Inr unique_df))))"

text \<open>
  The position at which a value first appears in a list, and the positions that hold a
  first appearance; they state the order in which identifiers are given.
\<close>

definition first_pos :: "'a list \<Rightarrow> 'a \<Rightarrow> nat" where
  "first_pos xs x = length (takeWhile (\<lambda>y. y \<noteq> x) xs)"

definition firsts :: "'a list \<Rightarrow> nat list" where
  "firsts xs = filter (\<lambda>i. xs ! i \<notin> set (take i xs)) [0..<length xs]"

section \<open>The quantile trimmer\<close>

text \<open>
  \<^verbatim>\<open>Series.quantile([lo, hi])\<close> with the default linear interpolation: the probabilities
  must lie in \<open>[0, 1]\<close> (\<^verbatim>\<open>ValueError\<close>), the column must be numeric (\<^verbatim>\<open>TypeError\<close>), missing
  values are skipped, and of no values the quantile is the missing value. At position
  \<open>h = q (n - 1)\<close> of the sorted values the result interpolates between the neighbours.
\<close>

definition quantile1 :: "rat list \<Rightarrow> rat \<Rightarrow> val" where
  "quantile1 xs q =
     (if xs = [] then NaN
      else let n = length xs;
               h = q * of_nat (n - 1);
               i = nat \<lfloor>h\<rfloor>;
               g = h - of_nat i
           in Num (xs ! i + g * (xs ! (min (i + 1) (n - 1)) - xs ! i)))"

definition numbers :: "val list \<Rightarrow> rat list" where
  "numbers vs = concat (map (\<lambda>v. case v of Num q \<Rightarrow> [q] | _ \<Rightarrow> []) vs)"

definition is_str :: "val \<Rightarrow> bool" where
  "is_str v = (case v of Str _ \<Rightarrow> True | _ \<Rightarrow> False)"

definition quantile :: "val list \<Rightarrow> rat \<times> rat \<Rightarrow> error + val \<times> val" where
  "quantile vs p =
     (let lo = fst p; hi = snd p in
      if \<not> (0 \<le> lo \<and> lo \<le> 1 \<and> 0 \<le> hi \<and> hi \<le> 1) then Inl ValueError
      else if list_ex is_str vs then Inl TypeError
      else let xs = sort (numbers vs) in Inr (quantile1 xs lo, quantile1 xs hi))"

text \<open>
  \<^verbatim>\<open>>=\<close> and \<^verbatim>\<open><=\<close> on cells: a comparison with the missing value is false. (A string never
  gets here: \<open>quantile\<close> has failed on the column before.)
\<close>

fun ge_val :: "val \<Rightarrow> val \<Rightarrow> bool" where
  "ge_val (Num a) (Num b) = (a \<ge> b)"
| "ge_val _ _ = False"

fun le_val :: "val \<Rightarrow> val \<Rightarrow> bool" where
  "le_val (Num a) (Num b) = (a \<le> b)"
| "le_val _ _ = False"

text \<open>
  Modelled from the spec: \<^verbatim>\<open>force_iterable\<close> of \<^verbatim>\<open>econtools.util.gentools\<close>, which is not among
  the sources. The trimmer takes "one or more column names to trim on": a single name
  becomes the sequence of that name, a sequence of names is itself.
\<close>

datatype by_arg = OneName string | ManyNames "string list"

definition force_iterable :: "by_arg \<Rightarrow> string list" where
  "force_iterable b = (case b of OneName c \<Rightarrow> [c] | ManyNames cs \<Rightarrow> cs)"

text \<open>
  The quantile argument is one pair for all columns or a list of pairs:
  \<^verbatim>\<open>
  if hasattr(p[0], '__iter__'):
      assert len(p) == len(by)
  else:
      p = [p] * len(by)
  \<close>
\<close>

datatype p_arg = Shared "rat \<times> rat" | PerColumn "(rat \<times> rat) list"

definition quantile_pairs :: "p_arg \<Rightarrow> nat \<Rightarrow> error + (rat \<times> rat) list" where
  "quantile_pairs p n =
     (case p of
        Shared pq \<Rightarrow> Inr (replicate n pq)
      | PerColumn ps \<Rightarrow>
          if ps = [] then Inl IndexError
          else if length ps = n then Inr ps
          else Inl AssertionError)"

text \<open>
  The loop over the columns, on the pairs of a column and its quantile pair:
  \<^verbatim>\<open>
  for idx, col in enumerate(by):
      cuts = df[col].quantile(p[idx]).values
      survive_this = np.logical_and(df[col] >= cuts[0], df[col] <= cuts[1])
      survive_winsor = np.minimum(survive_winsor, survive_this)
  \<close>
\<close>

fun survive_loop :: "frame \<Rightarrow> (string \<times> rat \<times> rat) list \<Rightarrow> bool list \<Rightarrow> error + bool list" where
  "survive_loop df [] survive_winsor = Inr survive_winsor"
| "survive_loop df ((col, pq) # rest) survive_winsor =
     (case lookup df col of
        None \<Rightarrow> Inl KeyError
      | Some vs \<Rightarrow>
          (case quantile vs pq of
             Inl e \<Rightarrow> Inl e
           | Inr cuts \<Rightarrow>
               survive_loop df rest
                 (map2 min survive_winsor (map (\<lambda>v. ge_val v (fst cuts) \<and> le_val v (snd cuts)) vs))))"

definition survive_mask :: "frame \<Rightarrow> by_arg \<Rightarrow> p_arg \<Rightarrow> error + bool list" where
  "survive_mask df by p =
     (case quantile_pairs p (length (force_iterable by)) of
        Inl e \<Rightarrow> Inl e
      | Inr ps \<Rightarrow> survive_loop df (zip (force_iterable by) ps) (replicate (nrows df) True))"

definition winsorize :: "frame \<Rightarrow> by_arg \<Rightarrow> p_arg \<Rightarrow> error + frame" where
  "winsorize df by p =
     (case survive_mask df by p of
        Inl e \<Rightarrow> Inl e
      | Inr survive_winsor \<Rightarrow> Inr (mask_rows df survive_winsor))"

text \<open>
  The specification's words for the cut: the value of row \<open>i\<close> in column \<open>c\<close> lies within
  \<open>[lower, upper]\<close> inclusive, the two being the column's quantiles at the pair \<open>pq\<close>.
\<close>

definition in_cutoffs :: "frame \<Rightarrow> string \<Rightarrow> rat \<times> rat \<Rightarrow> nat \<Rightarrow> bool" where
  "in_cutoffs df c pq i =
     (case lookup df c of
        None \<Rightarrow> False
      | Some vs \<Rightarrow>
          (case quantile vs pq of
             Inl e \<Rightarrow> False
           | Inr cuts \<Rightarrow>
               (case (vs ! i, fst cuts, snd cuts) of
                  (Num x, Num lower, Num upper) \<Rightarrow> lower \<le> x \<and> x \<le> upper
                | _ \<Rightarrow> False)))"


section \<open>Frames as objects\<close>

text \<open>
  A pandas frame is a mutable object and an argument is a reference to it. To say what a
  call does to its arguments, the functions are given once more on a store of frames: a
  reference is a position in the store, \<^verbatim>\<open>copy()\<close>, \<^verbatim>\<open>pd.merge\<close> and \<^verbatim>\<open>df[mask]\<close> make a new
  object, and \<^verbatim>\<open>df[c] = ...\<close> and \<^verbatim>\<open>del df[c]\<close> change the object the reference points to.
\<close>

type_synonym store = "frame list"

definition alloc :: "store \<Rightarrow> frame \<Rightarrow> nat \<times> store" where
  "alloc h f = (length h, h @ [f])"

definition stata_merge_st ::
  "store \<Rightarrow> nat \<Rightarrow> nat \<Rightarrow> int option \<Rightarrow> string \<Rightarrow> kwargs \<Rightarrow> store \<times> printed list \<times> (error + nat)" where
  "stata_merge_st h left right assertval gen kw =
     (let left_tmp = fresh_name ''tmpa'' CHR ''a'' (names (h ! left));
          right_tmp = fresh_name ''tmpb'' CHR ''b'' (names (h ! right));
          (copy_left, h1) = alloc h (h ! left);
          (copy_right, h2) = alloc h1 (h1 ! right);
          h3 = h2[copy_left := set_scalar (h2 ! copy_left) left_tmp (Num 1)];
          h4 = h3[copy_right := set_scalar (h3 ! copy_right) right_tmp (Num 2)]
      in case pd_merge (h4 ! copy_left) (h4 ! copy_right) kw of
           Inl e \<Rightarrow> (h4, [], Inl e)
         | Inr joined \<Rightarrow>
             let (new, h5) = alloc h4 joined in
             (case flag_status (h5 ! new) left_tmp right_tmp gen of
                Inl e \<Rightarrow> (h5, [], Inl e)
              | Inr flagged \<Rightarrow>
                  let h6 = h5[new := flagged] in
                  (case check_status (h6 ! new) gen assertval of
                     (out, Inl e) \<Rightarrow> (h6, out, Inl e)
                   | (out, Inr final) \<Rightarrow> (h6[new := final], out, Inr new))))"

definition winsorize_st :: "store \<Rightarrow> nat \<Rightarrow> by_arg \<Rightarrow> p_arg \<Rightarrow> store \<times> (error + nat)" where
  "winsorize_st h df by p =
     (let (df1, h1) = alloc h (h ! df) in
      case survive_mask (h1 ! df1) by p of
        Inl e \<Rightarrow> (h1, Inl e)
      | Inr survive_winsor \<Rightarrow>
          let (df2, h2) = alloc h1 (mask_rows (h1 ! df1) survive_winsor)
          in (h2, Inr df2))"

section \<open>Example tables\<close>

text \<open>The two tables of the specification's concrete scenario, used in the examples below.\<close>

definition ex_left :: frame where
  "ex_left = \<lparr>columns = [(''id'', [Num 1, Num 2]), (''x'', [Num 10, Num 20])], index = [Num 0, Num 1]\<rparr>"

definition ex_right :: frame where
  "ex_right = \<lparr>columns = [(''id'', [Num 2, Num 3]), (''y'', [Num 200, Num 300])], index = [Num 0, Num 1]\<rparr>"

section \<open>Properties of the row-sequence adapter\<close>

text \<open>
  Claim C8, as stated, asks for a type error on any input that is neither a list nor a
  table. The code raises \<^verbatim>\<open>ValueError\<close> there, so the statement with \<^verbatim>\<open>TypeError\<close> fails.
\<close>

theorem df_to_list_type_error_counterexample:
  "df_to_list (PyOther ''int'') \<noteq> Inl TypeError"
  by (simp add: df_to_list_def)

text \<open>
  Claim C8, amended: a list is returned unchanged, a table becomes the sequence of its
  rows in table order (row \<open>i\<close> of the result carries the label and the cells of row \<open>i\<close>),
  and any other input fails with \<^verbatim>\<open>ValueError\<close>.
\<close>

theorem df_to_list_cases:
  "df_to_list (PyList xs) = Inr xs
   \<and> df_to_list (PyDataFrame f)
       = Inr (map (\<lambda>i. \<lparr>label = index f ! i, cells = row_at f i\<rparr>) [0..<nrows f])
   \<and> df_to_list (PyOther t) = Inl ValueError"
  by (simp add: df_to_list_def iterrows_def comp_def)

section \<open>Properties of the marker names\<close>

lemma fresh_name_not_in: "fresh_name nm ch cols \<notin> set cols"
proof (induction nm ch cols rule: fresh_name.induct)
  case (1 nm ch cols)
  show ?case
  proof (cases "nm \<in> set cols")
    case True
    with "1" show ?thesis by (simp del: fresh_name.simps add: fresh_name.simps [of nm])
  next
    case False
    then show ?thesis by (simp add: fresh_name.simps [of nm])
  qed
qed

text \<open>
  Claim C4 at a failing input. The left table has the column \<open>id\<close>, the right table the
  columns \<open>id\<close> and \<open>tmpa\<close>. The left marker name is checked against the left columns only,
  so it is \<open>tmpa\<close>, a column of the right table; the join then renames both \<open>tmpa\<close> columns
  and reading the left marker back raises \<^verbatim>\<open>KeyError\<close>.
\<close>

theorem marker_collides_with_other_table:
  "fresh_name ''tmpa'' CHR ''a'' (names \<lparr>columns = [(''id'', [Num 1])], index = [Num 0]\<rparr>)
     \<in> set (names \<lparr>columns = [(''id'', [Num 1]), (''tmpa'', [Num 7])], index = [Num 0]\<rparr>)
   \<and> stata_merge \<lparr>columns = [(''id'', [Num 1])], index = [Num 0]\<rparr>
        \<lparr>columns = [(''id'', [Num 1]), (''tmpa'', [Num 7])], index = [Num 0]\<rparr>
        None ''_m'' \<lparr>on = [''id''], how = Inner\<rparr> = ([], Inl KeyError)"
  by code_simp

section \<open>Properties of the status check\<close>






section \<open>Properties of the group identifiers\<close>

text \<open>
  Claim C2 at a failing input: a table with a column named \<open>_m\<close> (alone, or beside the
  key column), the default identifier name, merging back. \<^verbatim>\<open>stata_merge\<close> stores the
  provenance under its default name \<open>_m\<close>, over the table's own column, and deletes it once
  the assertion has passed; the result has as many columns as the input, and the shape
  assertion of \<^verbatim>\<open>group_id\<close> fails.
\<close>

theorem group_id_fails_on_column_m:
  "group_id \<lparr>columns = [(''_m'', [Num 5])], index = [Num 0]\<rparr> None ''group_id'' True
     = ([], Inl AssertionError)
   \<and> group_id \<lparr>columns = [(''k'', [Num 1, Num 1]), (''_m'', [Num 5, Num 6])], index = [Num 0, Num 1]\<rparr>
       (Some [''k'']) ''group_id'' True
     = ([], Inl AssertionError)"
  by code_simp

text \<open>
  Whenever \<^verbatim>\<open>group_id\<close> returns with merging back, the table has the row count and the
  index of the input and one column more: the shape is asserted and the index assigned.
\<close>

lemma group_id_merge_shape:
  assumes "group_id df cols name True = (out, Inr U)"
  shows "nrows U = nrows df \<and> ncols U = ncols df + 1 \<and> index U = index df"
  using assms
  by (auto simp: group_id_def Let_def nrows_def ncols_def split: if_splits sum.splits prod.splits)

section \<open>Properties of the quantile trimmer\<close>

lemma wf_lookup_length: "wf_frame df \<Longrightarrow> lookup df c = Some vs \<Longrightarrow> length vs = nrows df"
  unfolding wf_frame_def lookup_def
  by (auto dest!: map_of_SomeD simp: list_all_iff)

lemma between_cuts:
  "(ge_val v a \<and> le_val v b) =
     (case (v, a, b) of (Num x, Num lower, Num upper) \<Rightarrow> lower \<le> x \<and> x \<le> upper | _ \<Rightarrow> False)"
  by (cases v; cases a; cases b) auto

lemma min_bool: "min (a::bool) b = (a \<and> b)"
  by (cases a; cases b) (simp_all add: min_def)

lemma survive_loop_mask:
  "survive_loop df cps s = Inr m \<Longrightarrow> wf_frame df \<Longrightarrow> length s = nrows df \<Longrightarrow>
     m = map (\<lambda>i. s ! i \<and> (\<forall>cp \<in> set cps. in_cutoffs df (fst cp) (snd cp) i)) [0..<nrows df]"
proof (induction cps arbitrary: s)
  case Nil
  then have "m = s" and "length m = nrows df" by simp_all
  then show ?case by (intro nth_equalityI) simp_all
next
  case (Cons cp cps)
  obtain col pq where cp: "cp = (col, pq)" by (cases cp)
  from Cons.prems(1) cp obtain vs where vs: "lookup df col = Some vs"
    by (auto split: option.splits)
  from Cons.prems(1) cp vs obtain cuts where cuts: "quantile vs pq = Inr cuts"
    by (auto split: sum.splits)
  define s' where "s' = map2 min s (map (\<lambda>v. ge_val v (fst cuts) \<and> le_val v (snd cuts)) vs)"
  have len: "length vs = nrows df" using wf_lookup_length [OF Cons.prems(2) vs] .
  have rest: "survive_loop df cps s' = Inr m"
    using Cons.prems(1) cp vs cuts by (simp add: s'_def)
  have len': "length s' = nrows df" using len Cons.prems(3) by (simp add: s'_def)
  have nth: "s' ! i = (s ! i \<and> in_cutoffs df col pq i)" if "i < nrows df" for i
  proof -
    have "s' ! i = min (s ! i) (ge_val (vs ! i) (fst cuts) \<and> le_val (vs ! i) (snd cuts))"
      using that len Cons.prems(3) by (simp add: s'_def)
    also have "\<dots> = (s ! i \<and> (ge_val (vs ! i) (fst cuts) \<and> le_val (vs ! i) (snd cuts)))"
      by (rule min_bool)
    also have "(ge_val (vs ! i) (fst cuts) \<and> le_val (vs ! i) (snd cuts)) = in_cutoffs df col pq i"
      unfolding between_cuts by (simp add: in_cutoffs_def vs cuts)
    finally show ?thesis .
  qed
  have "m = map (\<lambda>i. s' ! i \<and> (\<forall>cp \<in> set cps. in_cutoffs df (fst cp) (snd cp) i)) [0..<nrows df]"
    using Cons.IH [OF rest Cons.prems(2) len'] .
  also have "\<dots> = map (\<lambda>i. s ! i \<and> (\<forall>cp \<in> set (cp # cps). in_cutoffs df (fst cp) (snd cp) i)) [0..<nrows df]"
    by (rule map_cong) (auto simp: nth cp)
  finally show ?case .
qed

lemma pick_append: "length m1 = length xs1 \<Longrightarrow> pick (m1 @ m2) (xs1 @ xs2) = pick m1 xs1 @ pick m2 xs2"
  by (simp add: pick_def)

lemma pick_map: "length xs = n \<Longrightarrow> pick (map P [0..<n]) xs = map (\<lambda>i. xs ! i) (filter P [0..<n])"
proof (induction xs arbitrary: n rule: rev_induct)
  case Nil
  then show ?case by (simp add: pick_def)
next
  case (snoc x xs)
  then obtain k where n: "n = Suc k" and k: "length xs = k" by (cases n) auto
  have "pick (map P [0..<n]) (xs @ [x]) = pick (map P [0..<k]) xs @ pick [P k] [x]"
    using k by (simp add: n pick_append)
  also have "pick (map P [0..<k]) xs = map (\<lambda>i. xs ! i) (filter P [0..<k])"
    using snoc.IH [OF k] .
  also have "\<dots> = map (\<lambda>i. (xs @ [x]) ! i) (filter P [0..<k])"
    using k by (intro map_cong) (auto simp: nth_append)
  finally show ?case using k by (simp add: n pick_def nth_append)
qed

lemma survive_mask_char:
  assumes "wf_frame df" and "survive_mask df by p = Inr m"
  shows "\<exists>ps. quantile_pairs p (length (force_iterable by)) = Inr ps
           \<and> length ps = length (force_iterable by)
           \<and> m = map (\<lambda>i. \<forall>cp \<in> set (zip (force_iterable by) ps). in_cutoffs df (fst cp) (snd cp) i) [0..<nrows df]"
proof -
  from assms(2) obtain ps where ps: "quantile_pairs p (length (force_iterable by)) = Inr ps"
    and loop: "survive_loop df (zip (force_iterable by) ps) (replicate (nrows df) True) = Inr m"
    by (auto simp: survive_mask_def split: sum.splits)
  have len: "length ps = length (force_iterable by)"
    using ps by (auto simp: quantile_pairs_def split: p_arg.splits if_splits)
  have "m = map (\<lambda>i. replicate (nrows df) True ! i \<and> (\<forall>cp \<in> set (zip (force_iterable by) ps). in_cutoffs df (fst cp) (snd cp) i)) [0..<nrows df]"
    using survive_loop_mask [OF loop assms(1)] by simp
  also have "\<dots> = map (\<lambda>i. \<forall>cp \<in> set (zip (force_iterable by) ps). in_cutoffs df (fst cp) (snd cp) i) [0..<nrows df]"
    by (rule map_cong) auto
  finally show ?thesis using ps len by blast
qed

lemma wf_column_length: "wf_frame df \<Longrightarrow> cv \<in> set (columns df) \<Longrightarrow> length (snd cv) = nrows df"
  by (auto simp: wf_frame_def list_all_iff)















lemma in_cutoffs_NaN: "lookup df c = Some vs \<Longrightarrow> vs ! i = NaN \<Longrightarrow> \<not> in_cutoffs df c pq i"
  by (simp add: in_cutoffs_def split: sum.splits)

lemma in_cutoffs_Num: "lookup df c = Some vs \<Longrightarrow> in_cutoffs df c pq i \<Longrightarrow> \<exists>x. vs ! i = Num x"
  by (auto simp: in_cutoffs_def split: sum.splits val.splits)

lemma map_of_map_snd: "map_of (map (\<lambda>p. (fst p, f (snd p))) xs) c = map_option f (map_of xs c)"
  by (induction xs) auto

lemma lookup_mask_rows:
  "lookup (mask_rows df m) c = map_option (pick m) (lookup df c)"
  unfolding lookup_def mask_rows_def
  by (simp add: case_prod_unfold map_of_map_snd)
   

text \<open>
  Claim C10: whatever the quantile pairs, when \<^verbatim>\<open>winsorize\<close> returns, every row with a
  missing value in a trimmed column \<open>c\<close> has a false mask entry and is removed: the
  result is the input under that mask, and its column \<open>c\<close> holds no missing value.
\<close>

theorem winsorize_drops_missing:
  assumes "wf_frame df" and "winsorize df by p = Inr out"
    and "c \<in> set (force_iterable by)" and "lookup df c = Some vs"
  shows "\<exists>m. survive_mask df by p = Inr m \<and> length m = nrows df \<and> out = mask_rows df m
           \<and> (\<forall>i < nrows df. vs ! i = NaN \<longrightarrow> \<not> m ! i)
           \<and> (\<exists>kept. lookup out c = Some kept \<and> NaN \<notin> set kept)"
proof -
  from assms(2) obtain m where m: "survive_mask df by p = Inr m" and out: "out = mask_rows df m"
    by (auto simp: winsorize_def split: sum.splits)
  from survive_mask_char [OF assms(1) m] obtain ps where
    len: "length ps = length (force_iterable by)"
    and mm: "m = map (\<lambda>i. \<forall>cp \<in> set (zip (force_iterable by) ps). in_cutoffs df (fst cp) (snd cp) i) [0..<nrows df]"
    by blast
  from assms(3) len obtain pq where pq: "(c, pq) \<in> set (zip (force_iterable by) ps)"
    by (metis in_set_impl_in_set_zip1)
  have lm: "length m = nrows df" by (simp add: mm)
  have drop: "\<not> m ! i" if "i < nrows df" "vs ! i = NaN" for i
  proof -
    have "\<not> in_cutoffs df c pq i" using assms(4) that(2) by (rule in_cutoffs_NaN)
    with pq have "\<exists>cp \<in> set (zip (force_iterable by) ps). \<not> in_cutoffs df (fst cp) (snd cp) i"
      by force
    then show ?thesis using that(1) by (simp add: mm)
  qed
  have num: "\<exists>x. vs ! i = Num x" if "i < nrows df" "m ! i" for i
  proof -
    have "in_cutoffs df c pq i" using that pq by (auto simp: mm)
    with assms(4) show ?thesis by (rule in_cutoffs_Num)
  qed
  have lv: "length vs = nrows df" using assms(1,4) by (rule wf_lookup_length)
  have kept: "lookup out c = Some (pick m vs)" by (simp add: out lookup_mask_rows assms(4))
  have "NaN \<notin> set (pick m vs)"
  proof
    assume "NaN \<in> set (pick m vs)"
    then have "(True, NaN) \<in> set (zip m vs)" by (auto simp: pick_def)
    then obtain i where "i < length m" "m ! i" "vs ! i = NaN"
      by (auto simp: in_set_zip)
    then show False using num [of i] lm by auto
  qed
  with kept m lm out drop show ?thesis by blast
qed

theorem winsorize_drops_missing_witness:
  "\<exists>m. survive_mask \<lparr>columns = [(''c'', [Num 1, NaN, Num 3])], index = [Num 0, Num 1, Num 2]\<rparr>
          (ManyNames [''c'']) (Shared (0, 1)) = Inr m
     \<and> length m = nrows \<lparr>columns = [(''c'', [Num 1, NaN, Num 3])], index = [Num 0, Num 1, Num 2]\<rparr>
     \<and> \<lparr>columns = [(''c'', [Num 1, Num 3])], index = [Num 0, Num 2]\<rparr>
         = mask_rows \<lparr>columns = [(''c'', [Num 1, NaN, Num 3])], index = [Num 0, Num 1, Num 2]\<rparr> m
     \<and> \<not> m ! 1
     \<and> (\<exists>kept. lookup \<lparr>columns = [(''c'', [Num 1, Num 3])], index = [Num 0, Num 2]\<rparr> ''c'' = Some kept
            \<and> NaN \<notin> set kept)"
proof -
  have wf: "wf_frame \<lparr>columns = [(''c'', [Num 1, NaN, Num 3])], index = [Num 0, Num 1, Num 2]\<rparr>"
    by code_simp
  have run: "winsorize \<lparr>columns = [(''c'', [Num 1, NaN, Num 3])], index = [Num 0, Num 1, Num 2]\<rparr>
      (ManyNames [''c'']) (Shared (0, 1))
      = Inr \<lparr>columns = [(''c'', [Num 1, Num 3])], index = [Num 0, Num 2]\<rparr>"
    by code_simp
  have mem: "''c'' \<in> set (force_iterable (ManyNames [''c'']))" by code_simp
  have lk: "lookup \<lparr>columns = [(''c'', [Num 1, NaN, Num 3])], index = [Num 0, Num 1, Num 2]\<rparr> ''c''
      = Some [Num 1, NaN, Num 3]"
    by code_simp
  have n: "(1::nat) < nrows \<lparr>columns = [(''c'', [Num 1, NaN, Num 3])], index = [Num 0, Num 1, Num 2]\<rparr>"
    by code_simp
  from winsorize_drops_missing [OF wf run mem lk] n show ?thesis by auto
qed

section \<open>Properties of the identifier table\<close>

lemma first_pos_unique:
  assumes "i < length xs" and "xs ! i \<notin> set (take i xs)"
  shows "first_pos xs (xs ! i) = i"
proof -
  have "takeWhile (\<lambda>y. y \<noteq> xs ! i) xs = take i xs"
  proof (rule takeWhile_eq_take_P_nth)
    fix j assume "j < i" "j < length xs"
    then have "xs ! j \<in> set (take i xs)" by (metis in_set_conv_nth length_take min_less_iff_conj nth_take)
    with assms(2) show "xs ! j \<noteq> xs ! i" by auto
  qed simp
  then show ?thesis using assms(1) by (simp add: first_pos_def)
qed

lemma first_pos_in:
  assumes "x \<in> set xs"
  shows "first_pos xs x < length xs \<and> xs ! first_pos xs x = x \<and> x \<notin> set (take (first_pos xs x) xs)"
proof -
  have "takeWhile (\<lambda>y. y \<noteq> x) xs \<noteq> xs" using assms by auto
  then have lt: "first_pos xs x < length xs"
    unfolding first_pos_def using length_takeWhile_le [of "\<lambda>y. y \<noteq> x" xs]
    by (metis le_neq_implies_less takeWhile_eq_take take_all order_refl)
  have "\<not> (xs ! first_pos xs x \<noteq> x)"
    unfolding first_pos_def using lt [unfolded first_pos_def] by (rule nth_length_takeWhile)
  moreover have "x \<notin> set (take (first_pos xs x) xs)"
    unfolding first_pos_def takeWhile_eq_take [symmetric] by (auto dest: set_takeWhileD)
  ultimately show ?thesis using lt by simp
qed

lemma firsts_mem: "i \<in> set (firsts xs) \<longleftrightarrow> i < length xs \<and> xs ! i \<notin> set (take i xs)"
  by (auto simp: firsts_def)

lemma firsts_first_pos: "i \<in> set (firsts xs) \<Longrightarrow> first_pos xs (xs ! i) = i"
  by (simp add: firsts_mem first_pos_unique)


lemma firsts_set: "set (map (\<lambda>i. xs ! i) (firsts xs)) = set xs"
proof
  show "set (map (\<lambda>i. xs ! i) (firsts xs)) \<subseteq> set xs" by (auto simp: firsts_mem)
  show "set xs \<subseteq> set (map (\<lambda>i. xs ! i) (firsts xs))"
  proof
    fix x assume "x \<in> set xs"
    from first_pos_in [OF this] have "first_pos xs x \<in> set (firsts xs)" "xs ! first_pos xs x = x"
      by (simp_all add: firsts_mem)
    then show "x \<in> set (map (\<lambda>i. xs ! i) (firsts xs))" by force
  qed
qed

lemma firsts_distinct: "distinct (map (\<lambda>i. xs ! i) (firsts xs))"
proof -
  have "distinct (firsts xs)" by (simp add: firsts_def)
  moreover have "inj_on (\<lambda>i. xs ! i) (set (firsts xs))"
    by (rule inj_onI) (metis firsts_first_pos)
  ultimately show ?thesis by (simp add: distinct_map)
qed


lemma first_seen_firsts: "first_seen xs = map (\<lambda>i. xs ! i \<notin> set (take i xs)) [0..<length xs]"
  by (simp add: first_seen_def)


lemma names_lookup: "c \<in> set (names df) \<Longrightarrow> \<exists>vs. lookup df c = Some vs"
  unfolding names_def lookup_def by (cases "map_of (columns df) c") (simp_all add: map_of_eq_None_iff)

lemma map_of_graph: "k \<in> set ks \<Longrightarrow> map_of (map (\<lambda>c. (c, f c)) ks) k = Some (f k)"
  by (induction ks) auto

lemma unique_frame:
  assumes wf: "wf_frame df" and name: "name \<notin> set (names df)" and sub: "set K \<subseteq> set (names df)"
  shows "\<exists>p. project df K = Inr p
     \<and> reset_index_named (reset_index_drop (drop_duplicates p)) name
       = Inr \<lparr>columns = (name, range_index (length (firsts (keys_of df K))))
                         # map (\<lambda>c. (c, map (\<lambda>i. the (lookup df c) ! i) (firsts (keys_of df K)))) K,
              index = range_index (length (firsts (keys_of df K)))\<rparr>"
proof -
  define p where "p = \<lparr>columns = map (\<lambda>c. (c, the (lookup df c))) K, index = index df\<rparr>"
  define ks where "ks = keys_of df K"
  have pr: "project df K = Inr p" using sub by (simp add: project_def p_def)
  have np: "nrows p = nrows df" by (simp add: p_def nrows_def)
  have lks: "length ks = nrows df" by (simp add: ks_def keys_of_def)
  have rv: "map (row_vals p) [0..<nrows p] = ks"
    unfolding np ks_def keys_of_def
    by (rule map_cong [OF refl]) (simp add: row_vals_def key_at_def p_def comp_def)
  have col: "pick (first_seen ks) (the (lookup df c)) = map (\<lambda>i. the (lookup df c) ! i) (firsts ks)"
    if "c \<in> set K" for c
  proof -
    from that sub obtain vs where vs: "lookup df c = Some vs" using names_lookup by blast
    have "length vs = length ks" using wf_lookup_length [OF wf vs] lks by simp
    then show ?thesis unfolding first_seen_def firsts_def vs option.sel by (rule pick_map)
  qed
  have idx: "length (pick (first_seen ks) (index df)) = length (firsts ks)"
  proof -
    have "length (index df) = length ks" using lks by (simp add: nrows_def)
    then have "pick (first_seen ks) (index df) = map (\<lambda>i. index df ! i) (firsts ks)"
      unfolding first_seen_def firsts_def by (rule pick_map)
    then show ?thesis by simp
  qed
  have dd0: "drop_duplicates p = mask_rows p (first_seen ks)"
    unfolding drop_duplicates_def rv ..
  have cols: "map (\<lambda>(c, vs). (c, pick (first_seen ks) vs)) (columns p)
      = map (\<lambda>c. (c, map (\<lambda>i. the (lookup df c) ! i) (firsts ks))) K"
    unfolding p_def by (simp add: comp_def col)
  have dd: "drop_duplicates p
      = \<lparr>columns = map (\<lambda>c. (c, map (\<lambda>i. the (lookup df c) ! i) (firsts ks))) K,
         index = pick (first_seen ks) (index df)\<rparr>"
    unfolding dd0 mask_rows_def cols by (simp add: p_def)
  have nm: "name \<notin> set K" using name sub by auto
  have nms: "names (reset_index_drop (drop_duplicates p)) = K"
    unfolding dd by (simp add: reset_index_drop_def names_def comp_def)
  have rs: "reset_index_named (reset_index_drop (drop_duplicates p)) name
      = Inr \<lparr>columns = (name, index (reset_index_drop (drop_duplicates p)))
                        # columns (reset_index_drop (drop_duplicates p)),
             index = range_index (nrows (reset_index_drop (drop_duplicates p)))\<rparr>"
    using nm by (simp add: reset_index_named_def nms)
  have i1: "index (reset_index_drop (drop_duplicates p)) = range_index (length (firsts ks))"
    unfolding dd by (simp add: reset_index_drop_def nrows_def idx)
  have c1: "columns (reset_index_drop (drop_duplicates p))
      = map (\<lambda>c. (c, map (\<lambda>i. the (lookup df c) ! i) (firsts ks))) K"
    unfolding dd by (simp add: reset_index_drop_def)
  have n1: "nrows (reset_index_drop (drop_duplicates p)) = length (firsts ks)"
    unfolding nrows_def i1 by (simp add: range_index_def)
  have fin: "reset_index_named (reset_index_drop (drop_duplicates p)) name
       = Inr \<lparr>columns = (name, range_index (length (firsts ks)))
                         # map (\<lambda>c. (c, map (\<lambda>i. the (lookup df c) ! i) (firsts ks))) K,
              index = range_index (length (firsts ks))\<rparr>"
    using rs unfolding i1 c1 n1 .
  show ?thesis
    by (rule exI [of _ p]) (use pr fin in \<open>simp add: ks_def\<close>)
qed

lemma unique_frame_keys:
  assumes name: "name \<notin> set K"
    and U: "U = \<lparr>columns = (name, range_index (length (firsts (keys_of df K))))
                         # map (\<lambda>c. (c, map (\<lambda>i. the (lookup df c) ! i) (firsts (keys_of df K)))) K,
              index = range_index (length (firsts (keys_of df K)))\<rparr>"
  shows "nrows U = length (firsts (keys_of df K))"
    and "lookup U name = Some (range_index (nrows U))"
    and "keys_of U K = map (\<lambda>i. keys_of df K ! i) (firsts (keys_of df K))"
proof -
  define ks where "ks = keys_of df K"
  show n: "nrows U = length (firsts (keys_of df K))"
    by (simp add: U nrows_def range_index_def)
  show "lookup U name = Some (range_index (nrows U))"
    unfolding n by (simp add: U lookup_def)
  have lk: "lookup U k = Some (map (\<lambda>i. the (lookup df k) ! i) (firsts ks))" if "k \<in> set K" for k
  proof -
    have "k \<noteq> name" using that name by auto
    then show ?thesis
      using map_of_graph [OF that, of "\<lambda>c. map (\<lambda>i. the (lookup df c) ! i) (firsts ks)"]
      by (simp add: U lookup_def ks_def)
  qed
  have key: "key_at U K r = ks ! (firsts ks ! r)" if r: "r < length (firsts ks)" for r
  proof -
    have "firsts ks ! r \<in> set (firsts ks)" using r by simp
    then have lt: "firsts ks ! r < length ks" by (simp add: firsts_mem)
    have "key_at U K r = map (\<lambda>k. the (lookup df k) ! (firsts ks ! r)) K"
      unfolding key_at_def using r by (simp add: lk)
    also have "\<dots> = key_at df K (firsts ks ! r)" by (simp add: key_at_def)
    also have "\<dots> = ks ! (firsts ks ! r)"
      using lt by (simp add: ks_def keys_of_def)
    finally show ?thesis .
  qed
  have "keys_of U K = map (key_at U K) [0..<length (firsts ks)]"
    by (simp add: keys_of_def [of U] n ks_def)
  also have "\<dots> = map (\<lambda>i. ks ! i) (firsts ks)"
    by (rule nth_equalityI) (simp_all add: key)
  finally show "keys_of U K = map (\<lambda>i. keys_of df K ! i) (firsts (keys_of df K))"
    by (simp add: ks_def)
qed



section \<open>Properties of the provenance column\<close>

lemma fresh_name_form: "\<exists>n. fresh_name nm ch cols = nm @ replicate n ch"
proof (induction nm ch cols rule: fresh_name.induct)
  case (1 nm ch cols)
  show ?case
  proof (cases "nm \<in> set cols")
    case True
    with "1" obtain n where "fresh_name (nm @ [ch]) ch cols = (nm @ [ch]) @ replicate n ch" by blast
    then have "fresh_name nm ch cols = nm @ replicate (Suc n) ch"
      using True by (simp add: fresh_name.simps [of nm])
    then show ?thesis by blast
  next
    case False
    then have "fresh_name nm ch cols = nm @ replicate 0 ch" by (simp add: fresh_name.simps [of nm])
    then show ?thesis by blast
  qed
qed

lemma fresh_name_last:
  assumes "nm \<noteq> []" and "last nm = ch"
  shows "last (fresh_name nm ch cols) = ch"
proof -
  obtain n where "fresh_name nm ch cols = nm @ replicate n ch" using fresh_name_form by blast
  then show ?thesis using assms by (cases n) simp_all
qed

lemma left_marker_last: "last (fresh_name ''tmpa'' CHR ''a'' cols) = CHR ''a''"
  by (rule fresh_name_last) simp_all

lemma right_marker_last: "last (fresh_name ''tmpb'' CHR ''b'' cols) = CHR ''b''"
  by (rule fresh_name_last) simp_all

lemma left_marker_no_suffix:
  "fresh_name ''tmpa'' CHR ''a'' cols \<noteq> c @ ''_x''" "fresh_name ''tmpa'' CHR ''a'' cols \<noteq> c @ ''_y''"
  using left_marker_last [of cols] by auto

lemma right_marker_no_suffix:
  "fresh_name ''tmpb'' CHR ''b'' cols \<noteq> c @ ''_x''" "fresh_name ''tmpb'' CHR ''b'' cols \<noteq> c @ ''_y''"
  using right_marker_last [of cols] by auto

lemma matches_mem: "j \<in> set (matches ks k) \<longleftrightarrow> j < length ks \<and> ks ! j = k"
  by (auto simp: matches_def)

lemma matches_empty: "matches ks k = [] \<longleftrightarrow> k \<notin> set ks"
  by (auto simp: matches_def filter_empty_conv in_set_conv_nth)

lemma left_pairs_ok: "p \<in> set (left_pairs keep lk rk) \<Longrightarrow> pair_ok lk rk p"
  by (auto simp: left_pairs_def Let_def pair_ok_def matches_mem matches_empty split: if_splits)

lemma right_pairs_ok: "p \<in> set (right_pairs lk rk) \<Longrightarrow> pair_ok lk rk p"
  by (auto simp: right_pairs_def Let_def pair_ok_def matches_mem matches_empty split: if_splits)

lemma right_only_ok: "p \<in> set (right_only lk rk) \<Longrightarrow> pair_ok lk rk p"
  by (auto simp: right_only_def pair_ok_def matches_empty)

lemma join_indexers_ok: "p \<in> set (join_indexers h lk rk) \<Longrightarrow> pair_ok lk rk p"
  by (cases h) (auto simp: join_indexers_def dest: left_pairs_ok right_pairs_ok right_only_ok)


lemma lookup_distinct_mem: "distinct (names df) \<Longrightarrow> (c, vs) \<in> set (columns df) \<Longrightarrow> lookup df c = Some vs"
  by (simp add: lookup_def names_def)

lemma set_scalar_fresh:
  assumes "c \<notin> set (names df)"
  shows "columns (set_scalar df c v) = columns df @ [(c, replicate (nrows df) v)]"
    and "index (set_scalar df c v) = index df"
    and "names (set_scalar df c v) = names df @ [c]"
    and "nrows (set_scalar df c v) = nrows df"
    and "lookup (set_scalar df c v) c = Some (replicate (nrows df) v)"
proof -
  have n: "map_of (columns df) c = None" using assms by (simp add: names_def map_of_eq_None_iff)
  show "columns (set_scalar df c v) = columns df @ [(c, replicate (nrows df) v)]"
    using assms by (simp add: set_scalar_def set_col_def)
  then show "names (set_scalar df c v) = names df @ [c]" by (simp add: names_def)
  show "index (set_scalar df c v) = index df" by (simp add: set_scalar_def set_col_def)
  then show "nrows (set_scalar df c v) = nrows df" by (simp add: nrows_def)
  show "lookup (set_scalar df c v) c = Some (replicate (nrows df) v)"
    using assms n by (simp add: set_scalar_def set_col_def lookup_def map_add_def)
qed

lemma lookup_set_scalar_old:
  assumes "c \<notin> set (names df)" and "k \<in> set (names df)"
  shows "lookup (set_scalar df c v) k = lookup df k"
proof -
  from assms(2) obtain vs where "map_of (columns df) k = Some vs"
    using names_lookup [of k df] by (auto simp: lookup_def)
  then show ?thesis
    using assms(1) by (simp add: set_scalar_def set_col_def lookup_def map_add_def)
qed

lemma keys_of_set_scalar:
  assumes "c \<notin> set (names df)" and "set K \<subseteq> set (names df)"
  shows "keys_of (set_scalar df c v) K = keys_of df K"
proof -
  have "key_at (set_scalar df c v) K i = key_at df K i" for i
    unfolding key_at_def
    by (rule map_cong [OF refl]) (use assms in \<open>simp add: lookup_set_scalar_old subset_iff\<close>)
  then show ?thesis by (simp add: keys_of_def set_scalar_fresh(4) [OF assms(1)])
qed

lemma pd_merge_Inr:
  assumes "pd_merge left right kw = Inr new"
  shows "on kw \<noteq> []"
    and "set (on kw) \<subseteq> set (names left)"
    and "set (on kw) \<subseteq> set (names right)"
    and "columns new = left_part left right (on kw) (join_indexers (how kw) (keys_of left (on kw)) (keys_of right (on kw)))
                     @ right_part left right (on kw) (join_indexers (how kw) (keys_of left (on kw)) (keys_of right (on kw)))"
    and "index new = range_index (length (join_indexers (how kw) (keys_of left (on kw)) (keys_of right (on kw))))"
    and "distinct (names new)"
  using assms
  by (auto simp: pd_merge_def Let_def names_def split: if_splits)

lemma map_of_set_col_other:
  "k \<noteq> c \<Longrightarrow> map_of (map (\<lambda>p. if fst p = c then (fst p, vs) else (fst p, snd p)) cols) k = map_of cols k"
  by (induction cols) simp_all

lemma map_of_set_col_same:
  "c \<in> fst ` set cols \<Longrightarrow> map_of (map (\<lambda>p. if fst p = c then (fst p, vs) else (fst p, snd p)) cols) c = Some vs"
  by (induction cols) auto

lemma lookup_set_col: "lookup (set_col df c vs) k = (if k = c then Some vs else lookup df k)"
proof (cases "c \<in> set (names df)")
  case True
  then show ?thesis
    by (simp add: set_col_def lookup_def case_prod_unfold map_of_set_col_other map_of_set_col_same names_def)
next
  case False
  then have "map_of (columns df) c = None" by (simp add: names_def map_of_eq_None_iff)
  then show ?thesis using False by (auto simp: set_col_def lookup_def map_add_def split: option.split)
qed

lemma map_of_filter_neq: "map_of (filter (\<lambda>p. fst p \<noteq> c) cols) k = (if k = c then None else map_of cols k)"
  by (induction cols) auto

lemma lookup_del_col:
  assumes "del_col df c = Inr df'"
  shows "lookup df' k = (if k = c then None else lookup df k)" and "index df' = index df"
  using assms by (auto simp: del_col_def lookup_def case_prod_unfold map_of_filter_neq split: if_splits)

lemma index_set_col: "index (set_col df c vs) = index df"
  by (simp add: set_col_def)

lemma flag_status_Inr:
  assumes "flag_status new lt rt gen = Inr flagged"
  shows "\<exists>a b s. lookup new lt = Some a \<and> lookup new rt = Some b \<and> add_series a b = Inr s
           \<and> index flagged = index new
           \<and> (\<forall>k. lookup flagged k = (if k = rt \<or> k = lt then None else if k = gen then Some s else lookup new k))"
proof -
  from assms obtain a where a: "lookup new lt = Some a" by (auto simp: flag_status_def split: option.splits)
  from assms a obtain b where b: "lookup new rt = Some b" by (auto simp: flag_status_def split: option.splits)
  from assms a b obtain s where s: "add_series a b = Inr s" by (auto simp: flag_status_def split: sum.splits)
  from assms a b s obtain new1 where d1: "del_col (set_col new gen s) lt = Inr new1"
    by (auto simp: flag_status_def split: sum.splits)
  from assms a b s d1 have d2: "del_col new1 rt = Inr flagged" by (simp add: flag_status_def)
  have "lookup flagged k = (if k = rt \<or> k = lt then None else if k = gen then Some s else lookup new k)" for k
    by (simp add: lookup_del_col(1) [OF d2] lookup_del_col(1) [OF d1] lookup_set_col)
  moreover have "index flagged = index new"
    by (simp add: lookup_del_col(2) [OF d2] lookup_del_col(2) [OF d1] index_set_col)
  ultimately show ?thesis using a b s by blast
qed


lemma sequence_map_Inr: "(\<And>x. x \<in> set xs \<Longrightarrow> f x = Inr (g x)) \<Longrightarrow> sequence (map f xs) = Inr (map g xs)"
  by (induction xs) simp_all

lemma left_part_mem:
  assumes "(n, col) \<in> set (left_part l r K ix)"
  shows "\<exists>c vs. (c, vs) \<in> set (columns l)
           \<and> (if c \<in> set K
               then n = c \<and> col = map (\<lambda>p. case p of (Some i, _) \<Rightarrow> vs ! i
                                               | (None, Some j) \<Rightarrow> the (lookup r c) ! j
                                               | (None, None) \<Rightarrow> NaN) ix
               else n = (if c \<in> set (names r) then c @ ''_x'' else c) \<and> col = take_col vs (map fst ix))"
proof -
  from assms obtain cv where cv: "cv \<in> set (columns l)"
    and eq: "(n, col) = (case cv of (c, vs) \<Rightarrow>
            if c \<in> set K
            then (c, map (\<lambda>p. case p of (Some i, _) \<Rightarrow> vs ! i
                           | (None, Some j) \<Rightarrow> the (lookup r c) ! j
                           | (None, None) \<Rightarrow> NaN) ix)
            else (if c \<in> set (names r) then c @ ''_x'' else c, take_col vs (map fst ix)))"
    unfolding left_part_def by auto
  obtain c vs where "cv = (c, vs)" by (cases cv)
  with cv eq show ?thesis by (intro exI [of _ c] exI [of _ vs]) (simp split: if_splits)
qed

lemma right_part_mem:
  assumes "(n, col) \<in> set (right_part l r K ix)"
  shows "\<exists>c vs. (c, vs) \<in> set (columns r) \<and> c \<notin> set K
           \<and> n = (if c \<in> set (names l) then c @ ''_y'' else c) \<and> col = take_col vs (map snd ix)"
proof -
  from assms obtain cv where cv: "cv \<in> set (columns r)" "fst cv \<notin> set K"
    and eq: "(n, col) = (case cv of (c, vs) \<Rightarrow>
            (if c \<in> set (names l) then c @ ''_y'' else c, take_col vs (map snd ix)))"
    unfolding right_part_def by (auto simp: case_prod_unfold)
  obtain c vs where "cv = (c, vs)" by (cases cv)
  with cv eq show ?thesis by (intro exI [of _ c] exI [of _ vs]) simp
qed

lemma left_part_key:
  assumes "(c, vs) \<in> set (columns l)" and "c \<in> set K"
  shows "(c, map (\<lambda>p. case p of (Some i, _) \<Rightarrow> vs ! i
                           | (None, Some j) \<Rightarrow> the (lookup r c) ! j
                           | (None, None) \<Rightarrow> NaN) ix) \<in> set (left_part l r K ix)"
  unfolding left_part_def using assms by force


lemma merge_marked:
  assumes wfL: "wf_frame L" and wfR: "wf_frame R"
    and KL: "set K \<subseteq> set (names L)" and KR: "set K \<subseteq> set (names R)"
    and lt: "lt = fresh_name ''tmpa'' CHR ''a'' (names L)"
    and rt: "rt = fresh_name ''tmpb'' CHR ''b'' (names R)"
    and m: "pd_merge (set_scalar L lt (Num 1)) (set_scalar R rt (Num 2)) \<lparr>on = K, how = h\<rparr> = Inr new"
    and ix: "ix = join_indexers h (keys_of L K) (keys_of R K)"
  shows "nrows new = length ix"
    and "lookup new lt = Some a \<longrightarrow> a = map (\<lambda>p. case fst p of None \<Rightarrow> NaN | Some i \<Rightarrow> Num 1) ix"
    and "lookup new rt = Some b \<longrightarrow> b = map (\<lambda>p. case snd p of None \<Rightarrow> NaN | Some j \<Rightarrow> Num 2) ix"
    and "r < length ix \<longrightarrow> key_at new K r =
           (case ix ! r of (Some i, _) \<Rightarrow> keys_of L K ! i
                         | (None, Some j) \<Rightarrow> keys_of R K ! j
                         | (None, None) \<Rightarrow> map (\<lambda>k. NaN) K)"
proof -
  let ?cl = "set_scalar L lt (Num 1)" and ?cr = "set_scalar R rt (Num 2)"
  have ltL: "lt \<notin> set (names L)" unfolding lt by (rule fresh_name_not_in)
  have rtR: "rt \<notin> set (names R)" unfolding rt by (rule fresh_name_not_in)
  have ltK: "lt \<notin> set K" using ltL KL by auto
  have rtK: "rt \<notin> set K" using rtR KR by auto
  have ltx: "lt \<noteq> c @ ''_x''" "lt \<noteq> c @ ''_y''" for c unfolding lt by (rule left_marker_no_suffix)+
  have rtx: "rt \<noteq> c @ ''_x''" "rt \<noteq> c @ ''_y''" for c unfolding rt by (rule right_marker_no_suffix)+
  note cl = set_scalar_fresh [OF ltL, of "Num 1"]
  note cr = set_scalar_fresh [OF rtR, of "Num 2"]
  have kl: "keys_of ?cl K = keys_of L K" using ltL KL by (rule keys_of_set_scalar)
  have kr: "keys_of ?cr K = keys_of R K" using rtR KR by (rule keys_of_set_scalar)
  note pm = pd_merge_Inr [OF m, simplified]
  have cols: "columns new = left_part ?cl ?cr K ix @ right_part ?cl ?cr K ix"
    using pm(4) by (simp add: kl kr ix)
  have idx: "index new = range_index (length ix)" using pm(5) by (simp add: kl kr ix)
  show "nrows new = length ix" by (simp add: nrows_def idx range_index_def)
  have ok: "pair_ok (keys_of L K) (keys_of R K) p" if "p \<in> set ix" for p
    using that unfolding ix by (rule join_indexers_ok)
  have lenL: "length (keys_of L K) = nrows L" and lenR: "length (keys_of R K) = nrows R"
    by (simp_all add: keys_of_def)
  have fstb: "i < nrows L" if "p \<in> set ix" "fst p = Some i" for p i
    using ok [OF that(1)] that(2) lenL by (cases p; cases "snd p") (auto simp: pair_ok_def)
  have sndb: "j < nrows R" if "p \<in> set ix" "snd p = Some j" for p j
    using ok [OF that(1)] that(2) lenR by (cases p; cases "fst p") (auto simp: pair_ok_def)
  show "lookup new lt = Some a \<longrightarrow> a = map (\<lambda>p. case fst p of None \<Rightarrow> NaN | Some i \<Rightarrow> Num 1) ix"
  proof
    assume "lookup new lt = Some a"
    then have "(lt, a) \<in> set (columns new)" by (auto simp: lookup_def dest: map_of_SomeD)
    then consider (l) "(lt, a) \<in> set (left_part ?cl ?cr K ix)" | (r) "(lt, a) \<in> set (right_part ?cl ?cr K ix)"
      by (auto simp: cols)
    then show "a = map (\<lambda>p. case fst p of None \<Rightarrow> NaN | Some i \<Rightarrow> Num 1) ix"
    proof cases
      case l
      from left_part_mem [OF l] obtain c vs where cv: "(c, vs) \<in> set (columns ?cl)"
        and d: "if c \<in> set K then lt = c \<and> a = map (\<lambda>p. case p of (Some i, _) \<Rightarrow> vs ! i
                                               | (None, Some j) \<Rightarrow> the (lookup ?cr c) ! j
                                               | (None, None) \<Rightarrow> NaN) ix
               else lt = (if c \<in> set (names ?cr) then c @ ''_x'' else c) \<and> a = take_col vs (map fst ix)"
        by blast
      have cK: "c \<notin> set K" using d ltK by (auto split: if_splits)
      with d ltx have c: "c = lt" and a: "a = take_col vs (map fst ix)" by (auto split: if_splits)
      from cv c ltL have vs: "vs = replicate (nrows L) (Num 1)"
        by (auto simp: cl(1) names_def intro: rev_image_eqI)
      show ?thesis
        unfolding a vs take_col_def
        by (auto simp: fstb split: option.split)
    next
      case r
      from right_part_mem [OF r] obtain c vs where "(c, vs) \<in> set (columns ?cr)" "c \<notin> set K"
        and n: "lt = (if c \<in> set (names ?cl) then c @ ''_y'' else c)"
        by blast
      then have False using ltx by (auto simp: cl(3) split: if_splits)
      then show ?thesis ..
    qed
  qed
  show "lookup new rt = Some b \<longrightarrow> b = map (\<lambda>p. case snd p of None \<Rightarrow> NaN | Some j \<Rightarrow> Num 2) ix"
  proof
    assume "lookup new rt = Some b"
    then have "(rt, b) \<in> set (columns new)" by (auto simp: lookup_def dest: map_of_SomeD)
    then consider (l) "(rt, b) \<in> set (left_part ?cl ?cr K ix)" | (r) "(rt, b) \<in> set (right_part ?cl ?cr K ix)"
      by (auto simp: cols)
    then show "b = map (\<lambda>p. case snd p of None \<Rightarrow> NaN | Some j \<Rightarrow> Num 2) ix"
    proof cases
      case l
      from left_part_mem [OF l] obtain c vs where cv: "(c, vs) \<in> set (columns ?cl)"
        and d: "if c \<in> set K then rt = c \<and> b = map (\<lambda>p. case p of (Some i, _) \<Rightarrow> vs ! i
                                               | (None, Some j) \<Rightarrow> the (lookup ?cr c) ! j
                                               | (None, None) \<Rightarrow> NaN) ix
               else rt = (if c \<in> set (names ?cr) then c @ ''_x'' else c) \<and> b = take_col vs (map fst ix)"
        by blast
      have False using d rtK rtx by (auto simp: cr(3) split: if_splits)
      then show ?thesis ..
    next
      case r
      from right_part_mem [OF r] obtain c vs where cv: "(c, vs) \<in> set (columns ?cr)" "c \<notin> set K"
        and n: "rt = (if c \<in> set (names ?cl) then c @ ''_y'' else c)"
        and b: "b = take_col vs (map snd ix)"
        by blast
      from n rtx have c: "c = rt" by (auto split: if_splits)
      from cv(1) c rtR have vs: "vs = replicate (nrows R) (Num 2)"
        by (auto simp: cr(1) names_def intro: rev_image_eqI)
      show ?thesis
        unfolding b vs take_col_def
        by (auto simp: sndb split: option.split)
    qed
  qed
  have dn: "distinct (names new)" by (rule pm(6))
  have keycol: "lookup new k = Some (map (\<lambda>p. case p of (Some i, _) \<Rightarrow> the (lookup L k) ! i
                           | (None, Some j) \<Rightarrow> the (lookup R k) ! j
                           | (None, None) \<Rightarrow> NaN) ix)" if k: "k \<in> set K" for k
  proof -
    from k KL obtain vs where vs: "lookup L k = Some vs" using names_lookup by blast
    then have "(k, vs) \<in> set (columns L)" by (auto simp: lookup_def dest: map_of_SomeD)
    then have "(k, the (lookup L k)) \<in> set (columns ?cl)" by (simp add: cl(1) vs)
    note mem = left_part_key [OF this k, of ?cr ix]
    have eqr: "lookup ?cr k = lookup R k" using rtR k KR by (intro lookup_set_scalar_old) auto
    have "(k, map (\<lambda>p. case p of (Some i, _) \<Rightarrow> the (lookup L k) ! i
                           | (None, Some j) \<Rightarrow> the (lookup R k) ! j
                           | (None, None) \<Rightarrow> NaN) ix) \<in> set (columns new)"
      using mem unfolding eqr cols by simp
    with dn show ?thesis by (rule lookup_distinct_mem)
  qed
  show "r < length ix \<longrightarrow> key_at new K r =
           (case ix ! r of (Some i, _) \<Rightarrow> keys_of L K ! i
                         | (None, Some j) \<Rightarrow> keys_of R K ! j
                         | (None, None) \<Rightarrow> map (\<lambda>k. NaN) K)"
  proof
    assume r: "r < length ix"
    then have mem: "ix ! r \<in> set ix" by simp
    have ka: "key_at new K r = map (\<lambda>k. case ix ! r of (Some i, _) \<Rightarrow> the (lookup L k) ! i
                           | (None, Some j) \<Rightarrow> the (lookup R k) ! j
                           | (None, None) \<Rightarrow> NaN) K"
      unfolding key_at_def by (rule map_cong [OF refl]) (simp add: keycol r)
    obtain x y where p: "ix ! r = (x, y)" by (cases "ix ! r")
    show "key_at new K r =
           (case ix ! r of (Some i, _) \<Rightarrow> keys_of L K ! i
                         | (None, Some j) \<Rightarrow> keys_of R K ! j
                         | (None, None) \<Rightarrow> map (\<lambda>k. NaN) K)"
    proof (cases x)
      case (Some i)
      then have "i < nrows L" using fstb [OF mem, of i] p by simp
      then show ?thesis unfolding ka p Some by (simp add: keys_of_def key_at_def)
    next
      case None
      show ?thesis
      proof (cases y)
        case (Some j)
        then have "j < nrows R" using sndb [OF mem, of j] p by simp
        then show ?thesis unfolding ka p None Some by (simp add: keys_of_def key_at_def)
      next
        case None': None
        show ?thesis unfolding ka p None None' by simp
      qed
    qed
  qed
qed


lemma add_markers:
  "add_series (map (\<lambda>p. case fst p of None \<Rightarrow> NaN | Some i \<Rightarrow> Num 1) ix)
              (map (\<lambda>p. case snd p of None \<Rightarrow> NaN | Some j \<Rightarrow> Num 2) ix)
     = Inr (map status_of ix)"
proof -
  have "add_series (map (\<lambda>p. case fst p of None \<Rightarrow> NaN | Some i \<Rightarrow> Num 1) ix)
              (map (\<lambda>p. case snd p of None \<Rightarrow> NaN | Some j \<Rightarrow> Num 2) ix)
      = sequence (map (\<lambda>p. add_fill (case fst p of None \<Rightarrow> NaN | Some i \<Rightarrow> Num 1)
                                    (case snd p of None \<Rightarrow> NaN | Some j \<Rightarrow> Num 2)) ix)"
    by (simp add: add_series_def zip_map_map zip_same_conv_map comp_def)
  also have "\<dots> = Inr (map status_of ix)"
    by (rule sequence_map_Inr) (simp add: status_of_def split: prod.split option.split)
  finally show ?thesis .
qed

lemma status_of_markers:
  "p \<noteq> (None, None) \<Longrightarrow>
     Num (marker_value (case fst p of None \<Rightarrow> NaN | Some i \<Rightarrow> Num 1)
        + marker_value (case snd p of None \<Rightarrow> NaN | Some j \<Rightarrow> Num 2)) = status_of p"
  by (cases p; cases "fst p"; cases "snd p") (simp_all add: marker_value_def status_of_def)

lemma status_of_ok:
  assumes "pair_ok lk rk p"
  shows "status_of p = Num 1 \<or> status_of p = Num 2 \<or> status_of p = Num 3" and "p \<noteq> (None, None)"
  using assms by (cases p; cases "fst p"; cases "snd p"; simp add: pair_ok_def status_of_def)+


text \<open>
  The provenance column is in the flagged table exactly when its name is not a marker name.
\<close>

lemma provenance_column_present:
  assumes "flag_status new lt rt gen = Inr flagged"
  shows "(\<exists>prov. lookup flagged gen = Some prov) \<longleftrightarrow> gen \<noteq> lt \<and> gen \<noteq> rt"
  using flag_status_Inr [OF assms] by auto

text \<open>
  Claim C1: for well-formed tables \<open>L\<close> and \<open>R\<close> and key columns \<open>K\<close> of both, when
  \<^verbatim>\<open>stata_merge\<close> without an expected status returns a table \<open>T\<close>, every row of \<open>T\<close> carries
  under \<open>gen\<close> one of the values \<open>1\<close>, \<open>2\<close>, \<open>3\<close>; the column is the sum, row by row, of the
  two marker columns of the joined table \<open>new\<close> with a missing marker read as \<open>0\<close>; and
  every row whose key combination is present in both \<open>L\<close> and \<open>R\<close> has the value \<open>3\<close>. The
  key of a row is read from the joined table, and equally from \<open>T\<close> unless \<open>gen\<close> names a
  key column (which the provenance then overwrites).
\<close>

theorem stata_merge_provenance:
  assumes wfL: "wf_frame L" and wfR: "wf_frame R"
    and KL: "set K \<subseteq> set (names L)" and KR: "set K \<subseteq> set (names R)"
    and nt: "\<not> truthy assertval"
    and run: "stata_merge L R assertval gen \<lparr>on = K, how = h\<rparr> = (out, Inr T)"
  shows "\<exists>prov new a b.
      lookup T gen = Some prov \<and> length prov = nrows T
    \<and> (\<forall>v \<in> set prov. v = Num 1 \<or> v = Num 2 \<or> v = Num 3)
    \<and> pd_merge (set_scalar L (fresh_name ''tmpa'' CHR ''a'' (names L)) (Num 1))
                (set_scalar R (fresh_name ''tmpb'' CHR ''b'' (names R)) (Num 2))
                \<lparr>on = K, how = h\<rparr> = Inr new
    \<and> lookup new (fresh_name ''tmpa'' CHR ''a'' (names L)) = Some a
    \<and> lookup new (fresh_name ''tmpb'' CHR ''b'' (names R)) = Some b
    \<and> prov = map2 (\<lambda>x y. Num (marker_value x + marker_value y)) a b
    \<and> nrows new = nrows T
    \<and> (\<forall>r < nrows T. key_at new K r \<in> set (keys_of L K) \<and> key_at new K r \<in> set (keys_of R K)
          \<longrightarrow> prov ! r = Num 3)
    \<and> (gen \<notin> set K \<longrightarrow>
         (\<forall>r < nrows T. key_at T K r \<in> set (keys_of L K) \<and> key_at T K r \<in> set (keys_of R K)
          \<longrightarrow> prov ! r = Num 3))"
proof -
  define lt where "lt = fresh_name ''tmpa'' CHR ''a'' (names L)"
  define rt where "rt = fresh_name ''tmpb'' CHR ''b'' (names R)"
  define ix where "ix = join_indexers h (keys_of L K) (keys_of R K)"
  from run obtain new where m: "pd_merge (set_scalar L lt (Num 1)) (set_scalar R rt (Num 2)) \<lparr>on = K, how = h\<rparr> = Inr new"
    by (auto simp: stata_merge_def Let_def lt_def rt_def split: sum.splits)
  from run m obtain flagged where fl: "flag_status new lt rt gen = Inr flagged"
    by (auto simp: stata_merge_def Let_def lt_def rt_def split: sum.splits)
  from run m fl have chk: "check_status flagged gen assertval = (out, Inr T)"
    by (simp add: stata_merge_def Let_def lt_def rt_def)
  from chk nt obtain prov where prov: "lookup flagged gen = Some prov" and T: "T = flagged"
    by (auto simp: check_status_def split: option.splits)
  from flag_status_Inr [OF fl] obtain a b s where a: "lookup new lt = Some a"
    and b: "lookup new rt = Some b" and s: "add_series a b = Inr s"
    and fi: "index flagged = index new"
    and fk: "\<And>k. lookup flagged k = (if k = rt \<or> k = lt then None else if k = gen then Some s else lookup new k)"
    by blast
  note mm = merge_marked [OF wfL wfR KL KR lt_def rt_def m ix_def]
  have a': "a = map (\<lambda>p. case fst p of None \<Rightarrow> NaN | Some i \<Rightarrow> Num 1) ix" using mm(2) a by blast
  have b': "b = map (\<lambda>p. case snd p of None \<Rightarrow> NaN | Some j \<Rightarrow> Num 2) ix" using mm(3) b by blast
  have s': "s = map status_of ix" using s add_markers [of ix] by (simp add: a' b')
  have ps: "prov = s" using prov fk [of gen] by (auto split: if_splits)
  have gl: "gen \<noteq> lt" "gen \<noteq> rt" using prov fk [of gen] by (auto split: if_splits)
  have nT: "nrows T = length ix" using mm(1) fi by (simp add: T nrows_def)
  have ok: "pair_ok (keys_of L K) (keys_of R K) p" if "p \<in> set ix" for p
    using that unfolding ix_def by (rule join_indexers_ok)
  have c1: "lookup T gen = Some prov" using prov T by simp
  have c2: "length prov = nrows T" by (simp add: ps s' nT)
  have c3: "\<forall>v \<in> set prov. v = Num 1 \<or> v = Num 2 \<or> v = Num 3"
    unfolding ps s' using status_of_ok(1) [OF ok] by auto
  have c4: "prov = map2 (\<lambda>x y. Num (marker_value x + marker_value y)) a b"
  proof -
    have "map2 (\<lambda>x y. Num (marker_value x + marker_value y)) a b
        = map (\<lambda>p. Num (marker_value (case fst p of None \<Rightarrow> NaN | Some i \<Rightarrow> Num 1)
                        + marker_value (case snd p of None \<Rightarrow> NaN | Some j \<Rightarrow> Num 2))) ix"
      unfolding a' b' by (simp add: zip_map_map zip_same_conv_map comp_def)
    also have "\<dots> = map status_of ix"
      by (rule map_cong [OF refl]) (rule status_of_markers, rule status_of_ok(2) [OF ok])
    finally show ?thesis by (simp add: ps s')
  qed
  have c5: "nrows new = nrows T" using mm(1) nT by simp
  have matched: "prov ! r = Num 3"
    if r: "r < nrows T" and kl: "key_at new K r \<in> set (keys_of L K)" and kr: "key_at new K r \<in> set (keys_of R K)" for r
  proof -
    have rl: "r < length ix" using r nT by simp
    then have pk: "pair_ok (keys_of L K) (keys_of R K) (ix ! r)" by (intro ok) simp
    have key: "key_at new K r =
           (case ix ! r of (Some i, _) \<Rightarrow> keys_of L K ! i
                         | (None, Some j) \<Rightarrow> keys_of R K ! j
                         | (None, None) \<Rightarrow> map (\<lambda>k. NaN) K)"
      using mm(4) [of r] rl by blast
    have "status_of (ix ! r) = Num 3"
      using pk key kl kr
      by (cases "ix ! r"; cases "fst (ix ! r)"; cases "snd (ix ! r)") (auto simp: pair_ok_def status_of_def)
    then show ?thesis using rl by (simp add: ps s')
  qed
  have ltK: "lt \<notin> set K" using fresh_name_not_in [of "''tmpa''" "CHR ''a''" "names L"] KL by (auto simp: lt_def)
  have rtK: "rt \<notin> set K" using fresh_name_not_in [of "''tmpb''" "CHR ''b''" "names R"] KR by (auto simp: rt_def)
  have same: "key_at T K r = key_at new K r" if "gen \<notin> set K" for r
    unfolding key_at_def T
    by (rule map_cong [OF refl]) (use that ltK rtK in \<open>auto simp: fk\<close>)
  have c6: "\<forall>r < nrows T. key_at new K r \<in> set (keys_of L K) \<and> key_at new K r \<in> set (keys_of R K)
          \<longrightarrow> prov ! r = Num 3"
    using matched by blast
  have c7: "gen \<notin> set K \<longrightarrow>
         (\<forall>r < nrows T. key_at T K r \<in> set (keys_of L K) \<and> key_at T K r \<in> set (keys_of R K)
          \<longrightarrow> prov ! r = Num 3)"
    using matched same by simp
  show ?thesis
    apply (rule exI [of _ prov], rule exI [of _ new], rule exI [of _ a], rule exI [of _ b])
    using c1 c2 c3 m a b c4 c5 c6 c7 unfolding lt_def rt_def
    apply (intro conjI)
    apply assumption+
    done
qed


theorem stata_merge_provenance_witness:
  "\<exists>prov. lookup \<lparr>columns = [(''id'', [Num 1, Num 2, Num 3]), (''x'', [Num 10, Num 20, NaN]),
                             (''y'', [NaN, Num 200, Num 300]), (''_m'', [Num 1, Num 3, Num 2])],
                  index = [Num 0, Num 1, Num 2]\<rparr> ''_m'' = Some prov
     \<and> length prov = nrows \<lparr>columns = [(''id'', [Num 1, Num 2, Num 3]), (''x'', [Num 10, Num 20, NaN]),
                             (''y'', [NaN, Num 200, Num 300]), (''_m'', [Num 1, Num 3, Num 2])],
                  index = [Num 0, Num 1, Num 2]\<rparr>
     \<and> (\<forall>v \<in> set prov. v = Num 1 \<or> v = Num 2 \<or> v = Num 3)
     \<and> (\<forall>r < nrows \<lparr>columns = [(''id'', [Num 1, Num 2, Num 3]), (''x'', [Num 10, Num 20, NaN]),
                             (''y'', [NaN, Num 200, Num 300]), (''_m'', [Num 1, Num 3, Num 2])],
                  index = [Num 0, Num 1, Num 2]\<rparr>.
           key_at \<lparr>columns = [(''id'', [Num 1, Num 2, Num 3]), (''x'', [Num 10, Num 20, NaN]),
                             (''y'', [NaN, Num 200, Num 300]), (''_m'', [Num 1, Num 3, Num 2])],
                  index = [Num 0, Num 1, Num 2]\<rparr> [''id''] r \<in> set (keys_of ex_left [''id''])
           \<and> key_at \<lparr>columns = [(''id'', [Num 1, Num 2, Num 3]), (''x'', [Num 10, Num 20, NaN]),
                             (''y'', [NaN, Num 200, Num 300]), (''_m'', [Num 1, Num 3, Num 2])],
                  index = [Num 0, Num 1, Num 2]\<rparr> [''id''] r \<in> set (keys_of ex_right [''id''])
           \<longrightarrow> prov ! r = Num 3)"
proof -
  have wfL: "wf_frame ex_left" and wfR: "wf_frame ex_right" by code_simp+
  have KL: "set [''id''] \<subseteq> set (names ex_left)" and KR: "set [''id''] \<subseteq> set (names ex_right)"
    by code_simp+
  have nt: "\<not> truthy None" by (simp add: truthy_def)
  have run: "stata_merge ex_left ex_right None ''_m'' \<lparr>on = [''id''], how = Outer\<rparr>
     = ([Dist [(Num 1, 1 / 3), (Num 2, 1 / 3), (Num 3, 1 / 3)]],
        Inr \<lparr>columns = [(''id'', [Num 1, Num 2, Num 3]), (''x'', [Num 10, Num 20, NaN]),
                        (''y'', [NaN, Num 200, Num 300]), (''_m'', [Num 1, Num 3, Num 2])],
             index = [Num 0, Num 1, Num 2]\<rparr>)"
    by code_simp
  have g: "''_m'' \<notin> set [''id'']" by simp
  from stata_merge_provenance [OF wfL wfR KL KR nt run] g show ?thesis by blast
qed

section \<open>Merging the identifiers back\<close>

text \<open>
  In a list of distinct keys every key has one position, so a left join against a table
  of distinct keys keeps one row for each row of the left table, in the order of the left
  table.
\<close>

lemma matches_distinct:
  assumes "distinct xs" and "x \<in> set xs"
  shows "\<exists>j. matches xs x = [j] \<and> j < length xs \<and> xs ! j = x"
proof -
  from assms(2) obtain j where j: "j < length xs" "xs ! j = x" by (auto simp: in_set_conv_nth)
  have s: "set (matches xs x) = {j}"
    using j assms(1) by (auto simp: matches_mem nth_eq_iff_index_eq)
  have d: "distinct (matches xs x)" by (simp add: matches_def)
  have "length (matches xs x) = 1" using distinct_card [OF d] s by simp
  then obtain y where y: "matches xs x = [y]" by (cases "matches xs x") auto
  with s have "matches xs x = [j]" by simp
  with j show ?thesis by blast
qed

lemma left_pairs_unique:
  assumes "distinct rk" and "set lk \<subseteq> set rk"
  shows "left_pairs keep lk rk = map (\<lambda>i. (Some i, Some (hd (matches rk (lk ! i))))) [0..<length lk]"
proof -
  have one: "(let ms = matches rk (lk ! i)
          in if ms = [] then (if keep then [(Some i, None)] else [])
             else map (\<lambda>j. (Some i, Some j)) ms) = [(Some i, Some (hd (matches rk (lk ! i))))]"
    if "i < length lk" for i
  proof -
    have "lk ! i \<in> set rk" using that assms(2) by auto
    from matches_distinct [OF assms(1) this] obtain j where "matches rk (lk ! i) = [j]" by blast
    then show ?thesis by simp
  qed
  have "left_pairs keep lk rk = concat (map (\<lambda>i. [(Some i, Some (hd (matches rk (lk ! i))))]) [0..<length lk])"
    unfolding left_pairs_def
    by (rule arg_cong [where f = concat], rule map_cong [OF refl]) (simp add: one)
  also have "\<dots> = map (\<lambda>i. (Some i, Some (hd (matches rk (lk ! i))))) [0..<length lk]"
    by (induction "[0..<length lk]") (simp_all add: concat_map_singleton)
  finally show ?thesis .
qed

text \<open>
  The sum of a column of ones and a column of twos, and the small facts about columns
  whose names are new.
\<close>

lemma sequence_replicate: "sequence (replicate n (Inr v)) = Inr (replicate n v)"
  by (induction n) simp_all

lemma add_series_replicate:
  "add_series (replicate n (Num 1)) (replicate n (Num 2)) = Inr (replicate n (Num 3))"
  by (simp add: add_series_def zip_replicate sequence_replicate)

lemma take_col_all: "length vs = n \<Longrightarrow> take_col vs (map Some [0..<n]) = vs"
  by (auto simp: take_col_def comp_def intro: nth_equalityI)

lemma map_of_append_fresh: "k \<notin> fst ` set xs \<Longrightarrow> map_of (xs @ ys) k = map_of ys k"
  by (simp add: map_add_def map_of_eq_None_iff [THEN iffD2])

lemma filter_names_id: "c \<notin> fst ` set xs \<Longrightarrow> filter (\<lambda>(k, vs). k \<noteq> c) xs = xs"
  by (induction xs) auto

text \<open>
  The join of \<^verbatim>\<open>group_id\<close> with merging back: the marked table joined from the left with
  its own marked identifier table. Every row finds its identifier; the joined table is the
  input with the left marker, the identifier and the right marker appended.
\<close>

lemma merge_back_join:
  assumes wf: "wf_frame df" and name: "name \<notin> set (names df)"
    and sub: "set K \<subseteq> set (names df)" and ne: "K \<noteq> []"
    and U: "U = \<lparr>columns = (name, range_index (length (firsts (keys_of df K))))
                         # map (\<lambda>c. (c, map (\<lambda>i. the (lookup df c) ! i) (firsts (keys_of df K)))) K,
              index = range_index (length (firsts (keys_of df K)))\<rparr>"
    and lt: "lt = fresh_name ''tmpa'' CHR ''a'' (names df)"
    and rt: "rt = fresh_name ''tmpb'' CHR ''b'' (names U)"
    and ln: "name \<noteq> lt" and rn: "rt \<notin> set (names df)"
  shows "pd_merge (set_scalar df lt (Num 1)) (set_scalar U rt (Num 2)) \<lparr>on = K, how = Left\<rparr>
     = Inr \<lparr>columns = columns df @
                [(lt, replicate (nrows df) (Num 1)),
                 (name, map (\<lambda>i. Num (of_nat (hd (matches (keys_of U K) (keys_of df K ! i))))) [0..<nrows df]),
                 (rt, replicate (nrows df) (Num 2))],
            index = range_index (nrows df)\<rparr>"
proof -
  let ?cl = "set_scalar df lt (Num 1)" and ?cr = "set_scalar U rt (Num 2)"
  define ks where "ks = keys_of df K"
  define uk where "uk = keys_of U K"
  define n where "n = nrows df"
  define pos where "pos = (\<lambda>i. hd (matches uk (ks ! i)))"
  define ix where "ix = map (\<lambda>i. (Some i, Some (pos i))) [0..<n]"
  have nK: "name \<notin> set K" using name sub by auto
  have nU: "names U = name # K" by (simp add: U names_def comp_def)
  have ltL: "lt \<notin> set (names df)" unfolding lt by (rule fresh_name_not_in)
  have rtU: "rt \<notin> set (names U)" unfolding rt by (rule fresh_name_not_in)
  have ltrt: "lt \<noteq> rt" using left_marker_last [of "names df"] right_marker_last [of "names U"]
    by (auto simp: lt rt)
  have ltK: "lt \<notin> set K" using ltL sub by auto
  have rtK: "rt \<notin> set K" and rtn: "rt \<noteq> name" using rtU by (auto simp: nU)
  note cl = set_scalar_fresh [OF ltL, of "Num 1"]
  note cr = set_scalar_fresh [OF rtU, of "Num 2"]
  have nrU: "nrows U = length (firsts ks)" by (simp add: U nrows_def range_index_def ks_def)
  have kl: "keys_of ?cl K = ks" unfolding ks_def using ltL sub by (rule keys_of_set_scalar)
  have kr: "keys_of ?cr K = uk" unfolding uk_def using rtU by (rule keys_of_set_scalar) (auto simp: nU)
  have uk: "uk = map (\<lambda>i. ks ! i) (firsts ks)"
    unfolding uk_def ks_def by (rule unique_frame_keys(3) [OF nK U])
  have duk: "distinct uk" unfolding uk by (rule firsts_distinct)
  have suk: "set uk = set ks" unfolding uk by (rule firsts_set)
  have lks: "length ks = n" by (simp add: ks_def keys_of_def n_def)
  have luk: "length uk = length (firsts ks)" by (simp add: uk)
  have posb: "pos i < length (firsts ks)" if "i < n" for i
  proof -
    have "ks ! i \<in> set uk" using that lks suk by auto
    from matches_distinct [OF duk this] show ?thesis by (auto simp: pos_def luk)
  qed
  have ixe: "join_indexers Left (keys_of ?cl K) (keys_of ?cr K) = ix"
    unfolding kl kr join_indexers_def ix_def pos_def
    using left_pairs_unique [OF duk, of ks True] suk lks by simp
  have fsti: "map fst ix = map Some [0..<n]" by (simp add: ix_def comp_def)
  have lp: "left_part ?cl ?cr K ix = columns df @ [(lt, replicate n (Num 1))]"
  proof -
    have one: "(case cv of (c, vs) \<Rightarrow>
            if c \<in> set K
            then (c, map (\<lambda>p. case p of (Some i, _) \<Rightarrow> vs ! i
                           | (None, Some j) \<Rightarrow> the (lookup ?cr c) ! j
                           | (None, None) \<Rightarrow> NaN) ix)
            else (if c \<in> set (names ?cr) then c @ ''_x'' else c, take_col vs (map fst ix))) = cv"
      if cv: "cv \<in> set (columns df)" for cv
    proof -
      obtain c vs where e: "cv = (c, vs)" by (cases cv)
      have len: "length vs = n" using wf_column_length [OF wf cv] by (simp add: e n_def)
      have cn: "c \<in> set (names df)" using cv e by (force simp: names_def)
      then have notr: "c \<notin> set (names ?cr)" if "c \<notin> set K"
        using that name rn by (auto simp: cr(3) nU)
      have k: "map (\<lambda>p. case p of (Some i, _) \<Rightarrow> vs ! i
                           | (None, Some j) \<Rightarrow> the (lookup ?cr c) ! j
                           | (None, None) \<Rightarrow> NaN) ix = vs"
        using len by (auto simp: ix_def comp_def intro: nth_equalityI)
      have t: "take_col vs (map fst ix) = vs" unfolding fsti using len by (rule take_col_all)
      show ?thesis unfolding e using k t notr by simp
    qed
    have m: "(case (lt, replicate n (Num 1)) of (c, vs) \<Rightarrow>
            if c \<in> set K
            then (c, map (\<lambda>p. case p of (Some i, _) \<Rightarrow> vs ! i
                           | (None, Some j) \<Rightarrow> the (lookup ?cr c) ! j
                           | (None, None) \<Rightarrow> NaN) ix)
            else (if c \<in> set (names ?cr) then c @ ''_x'' else c, take_col vs (map fst ix)))
        = (lt, replicate n (Num 1))"
      using ltK ln ltrt by (simp add: cr(3) nU fsti take_col_all)
    show ?thesis
      unfolding left_part_def cl(1) n_def [symmetric] map_append
      using one m by (simp add: map_idI)
  qed
  have rp: "right_part ?cl ?cr K ix =
      [(name, map (\<lambda>i. Num (of_nat (pos i))) [0..<n]), (rt, replicate n (Num 2))]"
  proof -
    have f: "filter (\<lambda>(c, vs). c \<notin> set K) (columns ?cr)
        = [(name, range_index (length (firsts ks))), (rt, replicate (length (firsts ks)) (Num 2))]"
      unfolding cr(1) nrU using nK rtK by (simp add: U ks_def filter_map comp_def)
    have a: "take_col (range_index (length (firsts ks))) (map snd ix) = map (\<lambda>i. Num (of_nat (pos i))) [0..<n]"
      by (simp add: take_col_def ix_def comp_def range_index_def posb)
    have b: "take_col (replicate (length (firsts ks)) (Num 2)) (map snd ix) = replicate n (Num 2)"
      by (auto simp: take_col_def ix_def comp_def posb intro: nth_equalityI)
    show ?thesis
      unfolding right_part_def f using name ln rn ltrt a b by (simp add: cl(3))
  qed
  have dist: "distinct (map fst (left_part ?cl ?cr K ix @ right_part ?cl ?cr K ix))"
    unfolding lp rp using wf ltL name rn ln ltrt rtn
    by (auto simp: wf_frame_def names_def)
  have subs: "set K \<subseteq> set (names ?cl) \<and> set K \<subseteq> set (names ?cr)"
    using sub by (auto simp: cl(3) cr(3) nU)
  have "pd_merge ?cl ?cr \<lparr>on = K, how = Left\<rparr>
      = Inr \<lparr>columns = left_part ?cl ?cr K ix @ right_part ?cl ?cr K ix,
             index = range_index (length ix)\<rparr>"
    unfolding pd_merge_def Let_def using ne subs dist by (simp add: ixe)
  also have "length ix = n" by (simp add: ix_def)
  finally show ?thesis
    unfolding lp rp by (simp add: pos_def n_def uk_def ks_def)
qed

text \<open>
  On that table the provenance is \<open>3\<close> in every row, so the assertion passes and the
  provenance column is removed again.
\<close>

lemma merge_back_flag:
  assumes l: "lt \<notin> fst ` set cols" and r: "rt \<notin> fst ` set cols" and g: "g \<notin> fst ` set cols"
    and ne: "lt \<noteq> rt" "lt \<noteq> name" "rt \<noteq> name" "g \<noteq> lt" "g \<noteq> rt" "g \<noteq> name"
  shows "flag_status \<lparr>columns = cols @ [(lt, replicate n (Num 1)), (name, ids), (rt, replicate n (Num 2))],
                      index = idx\<rparr> lt rt g
      = Inr \<lparr>columns = cols @ [(name, ids), (g, replicate n (Num 3))], index = idx\<rparr>"
proof -
  let ?new = "\<lparr>columns = cols @ [(lt, replicate n (Num 1)), (name, ids), (rt, replicate n (Num 2))],
                      index = idx\<rparr>"
  have a: "lookup ?new lt = Some (replicate n (Num 1))"
    using l by (simp add: lookup_def map_of_append_fresh del: map_of_append)
  have b: "lookup ?new rt = Some (replicate n (Num 2))"
    using r ne by (simp add: lookup_def map_of_append_fresh del: map_of_append)
  have s: "set_col ?new g (replicate n (Num 3))
      = \<lparr>columns = cols @ [(lt, replicate n (Num 1)), (name, ids), (rt, replicate n (Num 2)),
                          (g, replicate n (Num 3))], index = idx\<rparr>"
    using g ne by (auto simp: set_col_def names_def)
  have d1: "del_col \<lparr>columns = cols @ [(lt, replicate n (Num 1)), (name, ids), (rt, replicate n (Num 2)),
                          (g, replicate n (Num 3))], index = idx\<rparr> lt
      = Inr \<lparr>columns = cols @ [(name, ids), (rt, replicate n (Num 2)), (g, replicate n (Num 3))], index = idx\<rparr>"
    using l ne by (simp add: del_col_def names_def filter_names_id)
  have d2: "del_col \<lparr>columns = cols @ [(name, ids), (rt, replicate n (Num 2)), (g, replicate n (Num 3))], index = idx\<rparr> rt
      = Inr \<lparr>columns = cols @ [(name, ids), (g, replicate n (Num 3))], index = idx\<rparr>"
    using r ne by (simp add: del_col_def names_def filter_names_id)
  show ?thesis
    unfolding flag_status_def a b option.case add_series_replicate sum.case s d1 d2 ..
qed

lemma merge_back_check:
  assumes g: "g \<notin> fst ` set cols" and ne: "g \<noteq> name"
  shows "check_status \<lparr>columns = cols @ [(name, ids), (g, replicate n (Num 3))], index = idx\<rparr> g (Some 3)
      = ([], Inr \<lparr>columns = cols @ [(name, ids)], index = idx\<rparr>)"
proof -
  let ?f = "\<lparr>columns = cols @ [(name, ids), (g, replicate n (Num 3))], index = idx\<rparr>"
  have p: "lookup ?f g = Some (replicate n (Num 3))"
    using g ne by (simp add: lookup_def map_of_append_fresh del: map_of_append)
  have d: "del_col ?f g = Inr \<lparr>columns = cols @ [(name, ids)], index = idx\<rparr>"
    using g ne by (simp add: del_col_def names_def filter_names_id)
  show ?thesis
    by (simp add: check_status_def truthy_def p d list_all_iff)
qed

text \<open>
  \<^verbatim>\<open>group_id\<close> with merging back returns the input with the identifier column appended
  and the index of the input, when no name collides: the identifier name and \<open>_m\<close> are not
  columns of the input, the identifier name is not the left marker name, and the right
  marker name (made fresh for the identifier table only) is not a column of the input.
\<close>

lemma group_id_merge_back:
  assumes wf: "wf_frame df" and name: "name \<notin> set (names df)"
    and K: "K = (case cols of None \<Rightarrow> names df | Some cs \<Rightarrow> if cs = [] then names df else cs)"
    and sub: "set K \<subseteq> set (names df)" and ne: "K \<noteq> []"
    and gm: "''_m'' \<notin> set (names df)" and gn: "name \<noteq> ''_m''"
    and ln: "name \<noteq> fresh_name ''tmpa'' CHR ''a'' (names df)"
    and rn: "fresh_name ''tmpb'' CHR ''b'' (name # K) \<notin> set (names df)"
  shows "group_id df cols name True
     = ([], Inr \<lparr>columns = columns df @
                   [(name, map (\<lambda>i. Num (of_nat (hd (matches
                        (map (\<lambda>r. keys_of df K ! r) (firsts (keys_of df K))) (keys_of df K ! i)))))
                      [0..<nrows df])],
                 index = index df\<rparr>)"
proof -
  define U where "U = \<lparr>columns = (name, range_index (length (firsts (keys_of df K))))
                         # map (\<lambda>c. (c, map (\<lambda>i. the (lookup df c) ! i) (firsts (keys_of df K)))) K,
              index = range_index (length (firsts (keys_of df K)))\<rparr>"
  define lt where "lt = fresh_name ''tmpa'' CHR ''a'' (names df)"
  define rt where "rt = fresh_name ''tmpb'' CHR ''b'' (names U)"
  define ids where "ids = map (\<lambda>i. Num (of_nat (hd (matches (keys_of U K) (keys_of df K ! i))))) [0..<nrows df]"
  have nK: "name \<notin> set K" using name sub by auto
  have nU: "names U = name # K" by (simp add: U_def names_def comp_def)
  from unique_frame [OF wf name sub] obtain p where
    pr: "project df K = Inr p"
    and un: "reset_index_named (reset_index_drop (drop_duplicates p)) name = Inr U"
    unfolding U_def by blast
  have ln': "name \<noteq> lt" using ln by (simp add: lt_def)
  have rn': "rt \<notin> set (names df)" using rn by (simp add: rt_def nU)
  have ltL: "lt \<notin> set (names df)" unfolding lt_def by (rule fresh_name_not_in)
  have rtU: "rt \<notin> set (names U)" unfolding rt_def by (rule fresh_name_not_in)
  have rtn: "rt \<noteq> name" using rtU by (simp add: nU)
  have ltrt: "lt \<noteq> rt" using left_marker_last [of "names df"] right_marker_last [of "names U"]
    by (auto simp: lt_def rt_def)
  have gl: "''_m'' \<noteq> lt"
  proof
    assume "''_m'' = lt"
    then have "last lt = last ''_m''" by simp
    moreover have "last lt = CHR ''a''" unfolding lt_def by (rule left_marker_last)
    ultimately show False by simp
  qed
  have gr: "''_m'' \<noteq> rt"
  proof
    assume "''_m'' = rt"
    then have "last rt = last ''_m''" by simp
    moreover have "last rt = CHR ''b''" unfolding rt_def by (rule right_marker_last)
    ultimately show False by simp
  qed
  have fs: "fst ` set (columns df) = set (names df)" by (simp add: names_def)
  have j: "pd_merge (set_scalar df lt (Num 1)) (set_scalar U rt (Num 2)) \<lparr>on = K, how = Left\<rparr>
     = Inr \<lparr>columns = columns df @ [(lt, replicate (nrows df) (Num 1)), (name, ids),
                                     (rt, replicate (nrows df) (Num 2))],
            index = range_index (nrows df)\<rparr>"
    unfolding ids_def
    by (rule merge_back_join [OF wf name sub ne U_def lt_def rt_def ln' rn'])
  have f: "flag_status \<lparr>columns = columns df @ [(lt, replicate (nrows df) (Num 1)), (name, ids),
                                     (rt, replicate (nrows df) (Num 2))],
            index = range_index (nrows df)\<rparr> lt rt ''_m''
      = Inr \<lparr>columns = columns df @ [(name, ids), (''_m'', replicate (nrows df) (Num 3))],
             index = range_index (nrows df)\<rparr>"
    by (rule merge_back_flag) (use ltL rn' gm ltrt ln' rtn gl gr gn in \<open>simp_all add: fs\<close>)
  have c: "check_status \<lparr>columns = columns df @ [(name, ids), (''_m'', replicate (nrows df) (Num 3))],
             index = range_index (nrows df)\<rparr> ''_m'' (Some 3)
      = ([], Inr \<lparr>columns = columns df @ [(name, ids)], index = range_index (nrows df)\<rparr>)"
    by (rule merge_back_check) (use gm gn in \<open>simp_all add: fs\<close>)
  have sm: "stata_merge df U (Some 3) ''_m'' \<lparr>on = K, how = Left\<rparr>
      = ([], Inr \<lparr>columns = columns df @ [(name, ids)], index = range_index (nrows df)\<rparr>)"
    unfolding stata_merge_def Let_def lt_def [symmetric] rt_def [symmetric] j sum.case f c ..
  have sh: "nrows \<lparr>columns = columns df @ [(name, ids)], index = range_index (nrows df)\<rparr> = nrows df
      \<and> ncols \<lparr>columns = columns df @ [(name, ids)], index = range_index (nrows df)\<rparr> = ncols df + 1"
    by (simp add: nrows_def ncols_def range_index_def)
  have uk: "keys_of U K = map (\<lambda>r. keys_of df K ! r) (firsts (keys_of df K))"
    by (rule unique_frame_keys(3) [OF nK U_def])
  have "group_id df cols name True
      = ([], Inr (\<lparr>columns = columns df @ [(name, ids)], index = range_index (nrows df)\<rparr>\<lparr>index := index df\<rparr>))"
    unfolding group_id_def K [symmetric] Let_def using name sh by (simp add: pr un sm)
  then show ?thesis by (simp add: ids_def uk)
qed

section \<open>The arguments are not mutated\<close>

lemma winsorize_st_value:
  assumes run: "winsorize_st h df by p = (h', res)" and d: "df < length h"
  shows "winsorize (h ! df) by p = map_sum id (\<lambda>a. h' ! a) res"
proof (cases "survive_mask (h ! df) by p")
  case (Inl e)
  with run show ?thesis by (auto simp add: winsorize_st_def winsorize_def alloc_def nth_append)
next
  case (Inr m)
  with run show ?thesis by (auto simp add: winsorize_st_def winsorize_def alloc_def nth_append)
qed

text \<open>
  On valid references the functions on the store compute what the functions on values do:
  the frame (or exception) and what is printed.
\<close>

lemma stata_merge_st_value:
  assumes run: "stata_merge_st h left right assertval gen kw = (h', out, res)"
    and l: "left < length h" and r: "right < length h"
  shows "stata_merge (h ! left) (h ! right) assertval gen kw = (out, map_sum id (\<lambda>a. h' ! a) res)"
proof -
  let ?lt = "fresh_name ''tmpa'' CHR ''a'' (names (h ! left))"
  let ?rt = "fresh_name ''tmpb'' CHR ''b'' (names (h ! right))"
  let ?cl = "set_scalar (h ! left) ?lt (Num 1)"
  let ?cr = "set_scalar (h ! right) ?rt (Num 2)"
  note unf = stata_merge_st_def stata_merge_def alloc_def Let_def nth_append list_update_append
  show ?thesis
  proof (cases "pd_merge ?cl ?cr kw")
    case (Inl e)
    with run r show ?thesis by (auto simp add: unf)
  next
    case joined: (Inr joined)
    show ?thesis
    proof (cases "flag_status joined ?lt ?rt gen")
      case (Inl e)
      with run r joined show ?thesis by (auto simp add: unf)
    next
      case flagged: (Inr flagged)
      obtain o2 r2 where chk: "check_status flagged gen assertval = (o2, r2)"
        by (cases "check_status flagged gen assertval")
      show ?thesis
      proof (cases r2)
        case (Inl e)
        with run r joined flagged chk show ?thesis by (auto simp add: unf)
      next
        case (Inr final)
        with run r joined flagged chk show ?thesis by (auto simp add: unf)
      qed
    qed
  qed
qed

lemma stata_merge_st_take:
  assumes "stata_merge_st h left right assertval gen kw = (h', out, res)"
  shows "length h \<le> length h' \<and> take (length h) h' = h"
  using assms
  by (auto simp: stata_merge_st_def alloc_def Let_def take_update_cancel split: sum.splits prod.splits)

lemma winsorize_st_take:
  assumes "winsorize_st h df by p = (h', res)"
  shows "length h \<le> length h' \<and> take (length h) h' = h"
  using assms
  by (auto simp: winsorize_st_def alloc_def split: sum.splits)

lemma take_nth_old: "take n h' = h \<Longrightarrow> a < n \<Longrightarrow> h' ! a = h ! a"
  by (metis nth_take)

text \<open>
  Claim C9: a call of \<^verbatim>\<open>stata_merge\<close> or of \<^verbatim>\<open>winsorize\<close>, whether it returns or raises,
  leaves every frame that was in the store before the call as it was; the arguments are
  among them. Only the copies and the joined frame, made during the call, are written.
\<close>

theorem arguments_not_mutated:
  "(stata_merge_st h left right assertval gen kw = (h', out, res) \<longrightarrow>
      (\<forall>a < length h. h' ! a = h ! a))
   \<and> (winsorize_st h df by p = (h'', res') \<longrightarrow>
      (\<forall>a < length h. h'' ! a = h ! a))"
  using stata_merge_st_take [of h left right assertval gen kw h' out res]
    winsorize_st_take [of h df "by" p h'' res']
  by (auto intro: take_nth_old)

theorem arguments_not_mutated_witness:
  "stata_merge_st [ex_left, ex_right] 0 1 None ''_m'' \<lparr>on = [''id''], how = Outer\<rparr>
     = ([ex_left, ex_right,
         \<lparr>columns = [(''id'', [Num 1, Num 2]), (''x'', [Num 10, Num 20]), (''tmpa'', [Num 1, Num 1])],
          index = [Num 0, Num 1]\<rparr>,
         \<lparr>columns = [(''id'', [Num 2, Num 3]), (''y'', [Num 200, Num 300]), (''tmpb'', [Num 2, Num 2])],
          index = [Num 0, Num 1]\<rparr>,
         \<lparr>columns = [(''id'', [Num 1, Num 2, Num 3]), (''x'', [Num 10, Num 20, NaN]),
                     (''y'', [NaN, Num 200, Num 300]), (''_m'', [Num 1, Num 3, Num 2])],
          index = [Num 0, Num 1, Num 2]\<rparr>],
        [Dist [(Num 1, 1 / 3), (Num 2, 1 / 3), (Num 3, 1 / 3)]], Inr 4)
   \<and> [ex_left, ex_right,
       \<lparr>columns = [(''id'', [Num 1, Num 2]), (''x'', [Num 10, Num 20]), (''tmpa'', [Num 1, Num 1])],
        index = [Num 0, Num 1]\<rparr>,
       \<lparr>columns = [(''id'', [Num 2, Num 3]), (''y'', [Num 200, Num 300]), (''tmpb'', [Num 2, Num 2])],
        index = [Num 0, Num 1]\<rparr>,
       \<lparr>columns = [(''id'', [Num 1, Num 2, Num 3]), (''x'', [Num 10, Num 20, NaN]),
                   (''y'', [NaN, Num 200, Num 300]), (''_m'', [Num 1, Num 3, Num 2])],
        index = [Num 0, Num 1, Num 2]\<rparr>] ! 1 = [ex_left, ex_right] ! 1
   \<and> winsorize_st [ex_left, ex_right] 1 (OneName ''y'') (Shared (1 / 2, 1))
     = ([ex_left, ex_right, ex_right, \<lparr>columns = [(''id'', [Num 3]), (''y'', [Num 300])], index = [Num 1]\<rparr>],
        Inr 3)
   \<and> [ex_left, ex_right, ex_right, \<lparr>columns = [(''id'', [Num 3]), (''y'', [Num 300])], index = [Num 1]\<rparr>] ! 1
     = [ex_left, ex_right] ! 1"
proof -
  have run1: "stata_merge_st [ex_left, ex_right] 0 1 None ''_m'' \<lparr>on = [''id''], how = Outer\<rparr>
     = ([ex_left, ex_right,
         \<lparr>columns = [(''id'', [Num 1, Num 2]), (''x'', [Num 10, Num 20]), (''tmpa'', [Num 1, Num 1])],
          index = [Num 0, Num 1]\<rparr>,
         \<lparr>columns = [(''id'', [Num 2, Num 3]), (''y'', [Num 200, Num 300]), (''tmpb'', [Num 2, Num 2])],
          index = [Num 0, Num 1]\<rparr>,
         \<lparr>columns = [(''id'', [Num 1, Num 2, Num 3]), (''x'', [Num 10, Num 20, NaN]),
                     (''y'', [NaN, Num 200, Num 300]), (''_m'', [Num 1, Num 3, Num 2])],
          index = [Num 0, Num 1, Num 2]\<rparr>],
        [Dist [(Num 1, 1 / 3), (Num 2, 1 / 3), (Num 3, 1 / 3)]], Inr 4)"
    by code_simp
  have run2: "winsorize_st [ex_left, ex_right] 1 (OneName ''y'') (Shared (1 / 2, 1))
     = ([ex_left, ex_right, ex_right, \<lparr>columns = [(''id'', [Num 3]), (''y'', [Num 300])], index = [Num 1]\<rparr>],
        Inr 3)"
    by code_simp
  have old: "(1::nat) < length [ex_left, ex_right]" by simp
  from arguments_not_mutated [THEN conjunct1, rule_format, OF run1 old]
    arguments_not_mutated [THEN conjunct2, rule_format, OF run2 old]
    run1 run2
  show ?thesis by blast
qed

end
